theory Spec2Isabelle
  imports Main "HOL-Library.Word"
begin

unbundle bit_operations_syntax

section \<open>Machine model\<close>

text \<open>
  The header \<^verbatim>\<open>str_view.hpp\<close> defines one class template, \<^verbatim>\<open>str_view_template<CharT>\<close>.
  Sizes, pointers and \<^verbatim>\<open>uintptr_t\<close> values are 64-bit words; \<^verbatim>\<open>SIZE_MAX\<close> is the word of
  all ones and \<^verbatim>\<open>nullptr\<close> is the word 0. A pointer to \<^verbatim>\<open>CharT\<close> is the address of a code
  unit and pointer arithmetic counts code units, so \<^verbatim>\<open>p + n\<close> is word addition (this is
  exact for \<^verbatim>\<open>str_view\<close>, where \<^verbatim>\<open>sizeof(char) = 1\<close>). The code-unit type is any type with a
  zero, the terminator \<^verbatim>\<open>(CharT)0\<close>.
\<close>

type_synonym size_t = "64 word"
type_synonym ptr = "64 word"
type_synonym uintptr_t = "64 word"

definition SIZE_MAX :: size_t where
  "SIZE_MAX = - 1"

type_synonym 'c memory = "ptr \<Rightarrow> 'c"

text \<open>
  \<^verbatim>\<open>assert\<close> is compiled in a debug build and removed (together with the evaluation of its
  argument) when \<^verbatim>\<open>NDEBUG\<close> is defined, so every function that asserts takes the build.
\<close>

datatype build = Debug | Release

text \<open>
  The ways a call can end without returning: a failed \<^verbatim>\<open>assert\<close>, a read through the null
  pointer (or a scan that runs off the end of the address space), \<^verbatim>\<open>std::bad_alloc\<close> thrown by
  \<^verbatim>\<open>new[]\<close>, and \<^verbatim>\<open>delete[]\<close> of an address that is not an allocated block.
\<close>

datatype error = AssertionFailed | AccessViolation | BadAlloc | InvalidFree

text \<open>\<^verbatim>\<open>p[i]\<close> for a pointer \<^verbatim>\<open>p\<close>: a fault when \<^verbatim>\<open>p\<close> is null.\<close>

definition load :: "'c memory \<Rightarrow> ptr \<Rightarrow> size_t \<Rightarrow> error + 'c" where
  "load m p i = (if p = 0 then Inl AccessViolation else Inr (m (p + i)))"

text \<open>
  \<^verbatim>\<open>tstrlen(sz)\<close>, that is \<^verbatim>\<open>strlen\<close> or \<^verbatim>\<open>wcslen\<close>: the scan for the first terminator. The scan
  faults when it reaches address 0, which covers \<^verbatim>\<open>strlen(nullptr)\<close> and a buffer with no
  terminator before the end of the address space.
\<close>

function tstrlen_from :: "('c::zero) memory \<Rightarrow> ptr \<Rightarrow> size_t \<Rightarrow> error + size_t" where
  "tstrlen_from m sz n =
     (if sz + n = 0 then Inl AccessViolation
      else if m (sz + n) = 0 then Inr n
      else tstrlen_from m sz (n + 1))"
  by pat_completeness auto
termination
proof (relation "measure (\<lambda>(m, sz, n). unat (- (sz + n)))")
  show "wf (measure (\<lambda>(m :: 'c memory, sz :: ptr, n :: size_t). unat (- (sz + n))))"
    by simp
next
  fix m :: "'c memory" and sz n :: "64 word"
  assume "sz + n \<noteq> 0"
  then have nz: "- (sz + n) \<noteq> 0"
    using neg_equal_0_iff_equal [of "sz + n"] by blast
  then have "unat (- (sz + n)) \<noteq> 0"
    by (simp add: unat_eq_0)
  with unat_minus_one [OF nz] have "unat (- (sz + n) - 1) < unat (- (sz + n))"
    by linarith
  moreover have "- (sz + (n + 1)) = - (sz + n) - 1"
    by simp
  ultimately have "unat (- (sz + (n + 1))) < unat (- (sz + n))"
    by (simp only:)
  then show "((m, sz, n + 1), (m, sz, n)) \<in> measure (\<lambda>(m, sz, n). unat (- (sz + n)))"
    by (simp only: in_measure prod.case)
qed

definition tstrlen :: "('c::zero) memory \<Rightarrow> ptr \<Rightarrow> error + size_t" where
  "tstrlen m sz = tstrlen_from m sz 0"

section \<open>The view\<close>

text \<open>
  The three data members. \<^verbatim>\<open>m_Length = SIZE_MAX\<close> means the length is unknown.
  \<^verbatim>\<open>m_NullTerminatedPtr\<close> is 0 when the range is not known to be terminated, 1 when the
  pointed string is null-terminated by itself, and any other value is the address of an owned
  null-terminated copy.
\<close>

record view =
  m_Length :: size_t
  m_Begin :: ptr
  m_NullTerminatedPtr :: uintptr_t

text \<open>\<^verbatim>\<open>str_view_template()\<close>\<close>

definition ctor_default :: view where
  "ctor_default = \<lparr>m_Length = 0, m_Begin = 0, m_NullTerminatedPtr = 0\<rparr>"

text \<open>\<^verbatim>\<open>str_view_template(const CharT* sz)\<close>\<close>

definition ctor_sz :: "ptr \<Rightarrow> view" where
  "ctor_sz sz =
     \<lparr>m_Length = (if sz \<noteq> 0 then SIZE_MAX else 0),
      m_Begin = sz,
      m_NullTerminatedPtr = (if sz \<noteq> 0 then 1 else 0)\<rparr>"

text \<open>\<^verbatim>\<open>str_view_template(const CharT* str, size_t length)\<close>\<close>

definition ctor_ptr_len :: "ptr \<Rightarrow> size_t \<Rightarrow> view" where
  "ctor_ptr_len str len =
     \<lparr>m_Length = len,
      m_Begin = (if len \<noteq> 0 then str else 0),
      m_NullTerminatedPtr = 0\<rparr>"

text \<open>
  \<^verbatim>\<open>str_view_template(const CharT* str, size_t length, StillNullTerminated)\<close>.
  The closing \<^verbatim>\<open>assert(m_Begin[m_Length] == (CharT)0)\<close> reads through \<^verbatim>\<open>m_Begin\<close>, which is still
  null when \<^verbatim>\<open>length\<close> is 0.
\<close>

definition ctor_still :: "build \<Rightarrow> ('c::zero) memory \<Rightarrow> ptr \<Rightarrow> size_t \<Rightarrow> error + view" where
  "ctor_still b m str len =
     (let v0 = \<lparr>m_Length = len, m_Begin = 0, m_NullTerminatedPtr = 0\<rparr>;
          v = (if len \<noteq> 0 then v0\<lparr>m_Begin := str, m_NullTerminatedPtr := 1\<rparr> else v0)
      in if b = Debug then
           (case load m (m_Begin v) (m_Length v) of
              Inl e \<Rightarrow> Inl e
            | Inr c \<Rightarrow> if c = 0 then Inr v else Inl AssertionFailed)
         else Inr v)"

text \<open>
  A \<^verbatim>\<open>std::basic_string\<close> object, as far as the constructor uses it: \<^verbatim>\<open>length()\<close> and the buffer
  that both \<^verbatim>\<open>c_str()\<close> and \<^verbatim>\<open>data()\<close> return.
\<close>

record StringT =
  s_data :: ptr
  s_length :: size_t

text \<open>\<^verbatim>\<open>str_view_template(const StringT& str, size_t offset, size_t length)\<close>\<close>

definition ctor_string :: "build \<Rightarrow> StringT \<Rightarrow> size_t \<Rightarrow> size_t \<Rightarrow> error + view" where
  "ctor_string b str offset len =
     (if b = Debug \<and> \<not> offset \<le> s_length str then Inl AssertionFailed
      else
        let n = min len (s_length str - offset);
            v = \<lparr>m_Length = n, m_Begin = 0, m_NullTerminatedPtr = 0\<rparr>
        in Inr (if n \<noteq> 0 then
                  (if n = s_length str - offset
                   then v\<lparr>m_Begin := s_data str + offset, m_NullTerminatedPtr := 1\<rparr>
                   else v\<lparr>m_Begin := s_data str + offset\<rparr>)
                else v))"

text \<open>
  \<^verbatim>\<open>length()\<close>: returns the length and the view with its length cache filled. The method is
  \<^verbatim>\<open>const\<close>; \<^verbatim>\<open>m_Length\<close> is \<^verbatim>\<open>mutable\<close>.
\<close>

definition length_view :: "build \<Rightarrow> ('c::zero) memory \<Rightarrow> view \<Rightarrow> error + (size_t \<times> view)" where
  "length_view b m v =
     (if m_Length v = SIZE_MAX then
        (if b = Debug \<and> m_NullTerminatedPtr v \<noteq> 1 then Inl AssertionFailed
         else case tstrlen m (m_Begin v) of
                Inl e \<Rightarrow> Inl e
              | Inr len \<Rightarrow> Inr (len, v\<lparr>m_Length := len\<rparr>))
      else Inr (m_Length v, v))"

text \<open>\<^verbatim>\<open>empty()\<close>: for an unknown length it peeks at the first code unit only.\<close>

definition empty_view :: "build \<Rightarrow> ('c::zero) memory \<Rightarrow> view \<Rightarrow> error + bool" where
  "empty_view b m v =
     (if m_Length v = SIZE_MAX then
        (if b = Debug \<and> m_NullTerminatedPtr v \<noteq> 1 then Inl AssertionFailed
         else Inr (m_Begin v = 0 \<or> m (m_Begin v) = 0))
      else Inr (m_Length v = 0))"

text \<open>
  \<^verbatim>\<open>str_view_template(const str_view_template& src, size_t offset, size_t length)\<close>, the copy
  and slicing constructor. It returns the new view and the source, whose length cache
  \<^verbatim>\<open>src.length()\<close> may have filled.
\<close>

definition ctor_copy ::
  "build \<Rightarrow> ('c::zero) memory \<Rightarrow> view \<Rightarrow> size_t \<Rightarrow> size_t \<Rightarrow> error + (view \<times> view)" where
  "ctor_copy b m src offset len =
     (let v = \<lparr>m_Length = 0, m_Begin = 0, m_NullTerminatedPtr = 0\<rparr>
      in if m_Length src = SIZE_MAX \<and> len = SIZE_MAX then
           (if b = Debug \<and> m_NullTerminatedPtr src \<noteq> 1 then Inl AssertionFailed
            else Inr (v\<lparr>m_Length := SIZE_MAX, m_Begin := m_Begin src + offset,
                        m_NullTerminatedPtr := 1\<rparr>, src))
         else
           (case length_view b m src of
              Inl e \<Rightarrow> Inl e
            | Inr (srcLen, src1) \<Rightarrow>
                if b = Debug \<and> \<not> offset \<le> srcLen then Inl AssertionFailed
                else
                  let n = min len (srcLen - offset);
                      v1 = v\<lparr>m_Length := n\<rparr>
                  in Inr (if n \<noteq> 0 then
                            (if m_NullTerminatedPtr src1 = 1 \<and> n = srcLen - offset
                             then v1\<lparr>m_Begin := m_Begin src1 + offset, m_NullTerminatedPtr := 1\<rparr>
                             else v1\<lparr>m_Begin := m_Begin src1 + offset\<rparr>)
                          else v1, src1)))"

text \<open>
  \<^verbatim>\<open>std::atomic::exchange\<close>: the value returned and the value left in the object.
\<close>

definition exchange :: "64 word \<Rightarrow> 64 word \<Rightarrow> 64 word \<times> 64 word" where
  "exchange obj desired = (obj, desired)"

text \<open>
  \<^verbatim>\<open>str_view_template(str_view_template&& src)\<close>: returns the new view and the moved-from
  source.
\<close>

definition ctor_move :: "view \<Rightarrow> view \<times> view" where
  "ctor_move src =
     (let (len, src_len) = exchange (m_Length src) 0;
          (nt, src_nt) = exchange (m_NullTerminatedPtr src) 0
      in (\<lparr>m_Length = len, m_Begin = m_Begin src, m_NullTerminatedPtr = nt\<rparr>,
          src\<lparr>m_Length := src_len, m_NullTerminatedPtr := src_nt, m_Begin := 0\<rparr>))"

section \<open>The free store\<close>

text \<open>
  The memory contents and the blocks that \<^verbatim>\<open>new[]\<close> has allocated and \<^verbatim>\<open>delete[]\<close> has not yet
  released, each with its element count.
\<close>

record 'c heap =
  mem :: "'c memory"
  live :: "ptr \<Rightarrow> size_t option"

text \<open>
  \<^verbatim>\<open>new CharT[n]\<close>. The address is chosen by the allocator, so it is an argument: \<open>None\<close> when
  the allocation fails.
\<close>

definition new_arr :: "ptr option \<Rightarrow> 'c heap \<Rightarrow> size_t \<Rightarrow> error + (ptr \<times> 'c heap)" where
  "new_arr a h n =
     (case a of
        None \<Rightarrow> Inl BadAlloc
      | Some p \<Rightarrow> Inr (p, h\<lparr>live := (live h)(p \<mapsto> n)\<rparr>))"

text \<open>\<^verbatim>\<open>delete[] p\<close>\<close>

definition delete_arr :: "'c heap \<Rightarrow> ptr \<Rightarrow> error + 'c heap" where
  "delete_arr h p =
     (case live h p of
        None \<Rightarrow> Inl InvalidFree
      | Some n \<Rightarrow> Inr (h\<lparr>live := (live h)(p := None)\<rparr>))"

text \<open>
  \<^verbatim>\<open>memcpy(dst, src, n * sizeof(CharT))\<close>: \<open>n\<close> code units, from ranges that do not overlap.
\<close>

definition memcpy :: "'c memory \<Rightarrow> ptr \<Rightarrow> ptr \<Rightarrow> size_t \<Rightarrow> error + 'c memory" where
  "memcpy m dst src n =
     (if n \<noteq> 0 \<and> (dst = 0 \<or> src = 0) then Inl AccessViolation
      else Inr (\<lambda>x. if x - dst < n then m (src + (x - dst)) else m x))"

text \<open>
  \<^verbatim>\<open>memcmp(p, q, n * sizeof(CharT)) == 0\<close>: the two ranges of \<open>n\<close> code units hold the same
  bytes.
\<close>

fun ranges_equal :: "'c memory \<Rightarrow> ptr \<Rightarrow> ptr \<Rightarrow> nat \<Rightarrow> bool" where
  "ranges_equal m p q 0 = True"
| "ranges_equal m p q (Suc n) = (m p = m q \<and> ranges_equal m (p + 1) (q + 1) n)"

definition memcmp_is_0 :: "'c memory \<Rightarrow> ptr \<Rightarrow> ptr \<Rightarrow> size_t \<Rightarrow> error + bool" where
  "memcmp_is_0 m p q n =
     (if n \<noteq> 0 \<and> (p = 0 \<or> q = 0) then Inl AccessViolation
      else Inr (ranges_equal m p q (unat n)))"

text \<open>
  \<^verbatim>\<open>std::atomic::compare_exchange_strong(expected, desired)\<close> on an object holding \<open>obj\<close>:
  whether it succeeded, the value left in the object, and the value left in \<open>expected\<close>.
\<close>

definition compare_exchange_strong :: "64 word \<Rightarrow> 64 word \<Rightarrow> 64 word \<Rightarrow> bool \<times> 64 word \<times> 64 word" where
  "compare_exchange_strong obj expected desired =
     (if obj = expected then (True, desired, expected) else (False, obj, obj))"

text \<open>\<^verbatim>\<open>~str_view_template()\<close>\<close>

definition dtor :: "'c heap \<Rightarrow> view \<Rightarrow> error + 'c heap" where
  "dtor h this =
     (let v = m_NullTerminatedPtr this
      in if 1 < v then delete_arr h v else Inr h)"

section \<open>Null-terminated access, slicing and comparison\<close>

text \<open>
  \<^verbatim>\<open>c_str()\<close>. \<open>nullChar\<close> is the address of the function's static terminator and \<open>a\<close> is
  the allocator's answer, should \<^verbatim>\<open>new[]\<close> be called. The result is the pointer returned, the
  view (whose caches the call may fill) and the heap. The \<^verbatim>\<open>assert\<close> of the self-terminated
  branch calls \<^verbatim>\<open>length()\<close>, so only a debug build fills the length cache there. Run on its
  own, the compare-and-exchange finds the value \<open>v\<close> that the function has just read.
\<close>

definition c_str ::
  "build \<Rightarrow> ptr \<Rightarrow> ptr option \<Rightarrow> ('c::zero) heap \<Rightarrow> view \<Rightarrow> error + (ptr \<times> view \<times> 'c heap)" where
  "c_str b nullChar a h this =
     (case empty_view b (mem h) this of
        Inl e \<Rightarrow> Inl e
      | Inr is_empty \<Rightarrow>
          if is_empty then Inr (nullChar, this, h)
          else
            let v = m_NullTerminatedPtr this
            in if v = 1 then
                 (if b = Debug then
                    (case length_view b (mem h) this of
                       Inl e \<Rightarrow> Inl e
                     | Inr (len, this1) \<Rightarrow>
                         (case load (mem h) (m_Begin this1) len of
                            Inl e \<Rightarrow> Inl e
                          | Inr c \<Rightarrow>
                              if c = 0 then Inr (m_Begin this1, this1, h)
                              else Inl AssertionFailed))
                  else Inr (m_Begin this, this, h))
               else if v = 0 then
                 (if b = Debug \<and> m_Length this = SIZE_MAX then Inl AssertionFailed
                  else
                    (case new_arr a h (m_Length this + 1) of
                       Inl e \<Rightarrow> Inl e
                     | Inr (nullTerminatedCopy, h1) \<Rightarrow>
                         if b = Debug \<and> nullTerminatedCopy AND 1 \<noteq> 0 then Inl AssertionFailed
                         else
                           (case memcpy (mem h1) nullTerminatedCopy (m_Begin this) (m_Length this) of
                              Inl e \<Rightarrow> Inl e
                            | Inr m2 \<Rightarrow>
                                let h2 = h1\<lparr>mem := m2(nullTerminatedCopy + m_Length this := 0)\<rparr>
                                in (case compare_exchange_strong v 0 nullTerminatedCopy of
                                      (True, nt, expected) \<Rightarrow>
                                        Inr (nullTerminatedCopy,
                                             this\<lparr>m_NullTerminatedPtr := nt\<rparr>, h2)
                                    | (False, nt, expected) \<Rightarrow>
                                        (case delete_arr h2 nullTerminatedCopy of
                                           Inl e \<Rightarrow> Inl e
                                         | Inr h3 \<Rightarrow>
                                             Inr (expected,
                                                  this\<lparr>m_NullTerminatedPtr := nt\<rparr>, h3))))))
               else Inr (v, this, h))"

text \<open>
  \<^verbatim>\<open>substr(offset, length)\<close>: returns the new view and this view, whose length cache
  \<^verbatim>\<open>length()\<close> may have filled.
\<close>

definition substr ::
  "build \<Rightarrow> ('c::zero) memory \<Rightarrow> view \<Rightarrow> size_t \<Rightarrow> size_t \<Rightarrow> error + (view \<times> view)" where
  "substr b m this offset len =
     (if m_Length this = SIZE_MAX \<and> len = SIZE_MAX then
        (if b = Debug \<and> m_NullTerminatedPtr this \<noteq> 1 then Inl AssertionFailed
         else Inr (ctor_sz (m_Begin this + offset), this))
      else
        (case length_view b m this of
           Inl e \<Rightarrow> Inl e
         | Inr (thisLen, this1) \<Rightarrow>
             if b = Debug \<and> \<not> offset \<le> thisLen then Inl AssertionFailed
             else
               let len1 = min len (thisLen - offset)
               in if m_NullTerminatedPtr this1 = 1 \<and> len1 = thisLen - offset then
                    (case ctor_still b m (m_Begin this1 + offset) len1 of
                       Inl e \<Rightarrow> Inl e
                     | Inr r \<Rightarrow> Inr (r, this1))
                  else Inr (ctor_ptr_len (m_Begin this1 + offset) len1, this1)))"

text \<open>
  \<^verbatim>\<open>operator==\<close>: returns the verdict and both operands, whose length caches the two calls of
  \<^verbatim>\<open>length()\<close> may have filled.
\<close>

definition op_eq ::
  "build \<Rightarrow> ('c::zero) memory \<Rightarrow> view \<Rightarrow> view \<Rightarrow> error + (bool \<times> view \<times> view)" where
  "op_eq b m this rhs =
     (case length_view b m this of
        Inl e \<Rightarrow> Inl e
      | Inr (thisLen, this1) \<Rightarrow>
          (case length_view b m rhs of
             Inl e \<Rightarrow> Inl e
           | Inr (rhsLen, rhs1) \<Rightarrow>
               if thisLen \<noteq> rhsLen then Inr (False, this1, rhs1)
               else if 0 < thisLen then
                 (case memcmp_is_0 m (m_Begin this1) (m_Begin rhs1) thisLen of
                    Inl e \<Rightarrow> Inl e
                  | Inr r \<Rightarrow> Inr (r, this1, rhs1))
               else Inr (True, this1, rhs1)))"

section \<open>Assignment\<close>

text \<open>
  The assignment operators compare the addresses of their two operands, so they are modelled
  on a store of view objects: \<open>objects s i\<close> is the view at object address \<open>i\<close>.
\<close>

record 'c state =
  objects :: "nat \<Rightarrow> view"
  free_store :: "'c heap"

text \<open>\<^verbatim>\<open>operator=(const str_view_template& src)\<close>\<close>

definition copy_assign :: "'c state \<Rightarrow> nat \<Rightarrow> nat \<Rightarrow> error + 'c state" where
  "copy_assign s this src =
     (if src \<noteq> this then
        (let v = m_NullTerminatedPtr (objects s this)
         in case (if 1 < v then delete_arr (free_store s) v else Inr (free_store s)) of
              Inl e \<Rightarrow> Inl e
            | Inr h \<Rightarrow>
                let t = (objects s this)
                      \<lparr>m_Begin := m_Begin (objects s src),
                       m_Length := m_Length (objects s src),
                       m_NullTerminatedPtr :=
                         (if m_NullTerminatedPtr (objects s src) = 1 then 1 else 0)\<rparr>
                in Inr (s\<lparr>objects := (objects s)(this := t), free_store := h\<rparr>))
      else Inr s)"

text \<open>\<^verbatim>\<open>operator=(str_view_template&& src)\<close>\<close>

definition move_assign :: "'c state \<Rightarrow> nat \<Rightarrow> nat \<Rightarrow> error + 'c state" where
  "move_assign s this src =
     (if src \<noteq> this then
        (let v = m_NullTerminatedPtr (objects s this)
         in case (if 1 < v then delete_arr (free_store s) v else Inr (free_store s)) of
              Inl e \<Rightarrow> Inl e
            | Inr h \<Rightarrow>
                let (len, src_len) = exchange (m_Length (objects s src)) 0;
                    (nt, src_nt) = exchange (m_NullTerminatedPtr (objects s src)) 0;
                    t = (objects s this)
                      \<lparr>m_Begin := m_Begin (objects s src),
                       m_Length := len,
                       m_NullTerminatedPtr := nt\<rparr>;
                    f = (objects s src)
                      \<lparr>m_Length := src_len, m_NullTerminatedPtr := src_nt, m_Begin := 0\<rparr>
                in Inr (s\<lparr>objects := (objects s)(this := t, src := f), free_store := h\<rparr>))
      else Inr s)"

section \<open>The data model of the specification\<close>

text \<open>
  The termination state that the tagged word \<^verbatim>\<open>m_NullTerminatedPtr\<close> encodes.
\<close>

datatype termination_state = NotTerminated | SelfTerminated | OwnedCopy ptr

definition termination_of :: "view \<Rightarrow> termination_state" where
  "termination_of v =
     (if m_NullTerminatedPtr v = 0 then NotTerminated
      else if m_NullTerminatedPtr v = 1 then SelfTerminated
      else OwnedCopy (m_NullTerminatedPtr v))"

text \<open>
  What the callers of the constructors owe. A pointer and a length denote a range of the
  address space: a null pointer only with length 0, and the one-past-the-end address
  representable. A \<^verbatim>\<open>std::basic_string\<close> keeps a terminator behind its \<^verbatim>\<open>length()\<close> code units.
  The allocator returns no null pointer, and an even address (the code asserts the latter).
\<close>

definition valid_range :: "ptr \<Rightarrow> size_t \<Rightarrow> bool" where
  "valid_range str len \<longleftrightarrow> len = 0 \<or> (str \<noteq> 0 \<and> unat str + unat len < 2 ^ 64)"

definition valid_string :: "('c::zero) memory \<Rightarrow> StringT \<Rightarrow> bool" where
  "valid_string m str \<longleftrightarrow>
     s_data str \<noteq> 0 \<and> unat (s_data str) + unat (s_length str) < 2 ^ 64 \<and>
     m (s_data str + s_length str) = 0"

definition alloc_ok :: "ptr option \<Rightarrow> bool" where
  "alloc_ok a = (case a of None \<Rightarrow> True | Some p \<Rightarrow> p \<noteq> 0 \<and> p AND 1 = 0)"

text \<open>
  The invariant of a view over a memory: an unknown length only on a self-terminated view
  whose buffer does hold a terminator; a known non-zero length spans a range of the address
  space; a self-terminated view of known length and an owned copy have the terminator at
  offset \<^verbatim>\<open>m_Length\<close>.
\<close>

definition wf_view :: "('c::zero) memory \<Rightarrow> view \<Rightarrow> bool" where
  "wf_view m v \<longleftrightarrow>
     (if m_Length v = SIZE_MAX then
        m_NullTerminatedPtr v = 1 \<and>
        (case tstrlen m (m_Begin v) of Inl e \<Rightarrow> False | Inr n \<Rightarrow> True)
      else
        valid_range (m_Begin v) (m_Length v) \<and>
        (m_NullTerminatedPtr v = 1 \<longrightarrow>
           m_Begin v \<noteq> 0 \<and> m (m_Begin v + m_Length v) = 0) \<and>
        (1 < m_NullTerminatedPtr v \<longrightarrow> m (m_NullTerminatedPtr v + m_Length v) = 0))"

text \<open>
  The views that the interface produces over a memory \<open>m\<close>: every constructor called within
  its precondition, and every operation applied to views so produced. Slices take an offset
  that does not exceed the resolved length of their source. \<^verbatim>\<open>operator==\<close> changes its operands
  as \<^verbatim>\<open>length()\<close> does.
\<close>

inductive produced :: "('c::zero) memory \<Rightarrow> view \<Rightarrow> bool" where
  by_default: "produced m ctor_default"
| by_sz: "sz = 0 \<or> tstrlen m sz = Inr n \<Longrightarrow> produced m (ctor_sz sz)"
| by_ptr_len: "valid_range str len \<Longrightarrow> produced m (ctor_ptr_len str len)"
| by_still:
    "valid_range str len \<Longrightarrow> len = 0 \<or> m (str + len) = 0 \<Longrightarrow>
     ctor_still b m str len = Inr v \<Longrightarrow> produced m v"
| by_string:
    "valid_string m str \<Longrightarrow> offset \<le> s_length str \<Longrightarrow>
     ctor_string b str offset len = Inr v \<Longrightarrow> produced m v"
| by_copy:
    "produced m src \<Longrightarrow> length_view Release m src = Inr (srcLen, src0) \<Longrightarrow>
     offset \<le> srcLen \<Longrightarrow> ctor_copy b m src offset len = Inr (v, src1) \<Longrightarrow> produced m v"
| by_copy_source:
    "produced m src \<Longrightarrow> ctor_copy b m src offset len = Inr (v, src1) \<Longrightarrow> produced m src1"
| by_move: "produced m src \<Longrightarrow> ctor_move src = (v, src1) \<Longrightarrow> produced m v"
| by_move_source: "produced m src \<Longrightarrow> ctor_move src = (v, src1) \<Longrightarrow> produced m src1"
| by_copy_assign:
    "produced m (objects (s :: 'c state) this) \<Longrightarrow> produced m (objects s src) \<Longrightarrow>
     copy_assign s this src = Inr s1 \<Longrightarrow> produced m (objects s1 this)"
| by_move_assign:
    "produced m (objects (s :: 'c state) this) \<Longrightarrow> produced m (objects s src) \<Longrightarrow>
     move_assign s this src = Inr s1 \<Longrightarrow> produced m (objects s1 this)"
| by_move_assign_source:
    "produced m (objects (s :: 'c state) this) \<Longrightarrow> produced m (objects s src) \<Longrightarrow>
     move_assign s this src = Inr s1 \<Longrightarrow> produced m (objects s1 src)"
| by_length: "produced m v \<Longrightarrow> length_view b m v = Inr (n, v1) \<Longrightarrow> produced m v1"
| by_c_str:
    "produced (mem h) v \<Longrightarrow> alloc_ok a \<Longrightarrow>
     c_str b nullChar a h v = Inr (p, v1, h1) \<Longrightarrow> produced (mem h1) v1"
| by_substr:
    "produced m v \<Longrightarrow> length_view Release m v = Inr (thisLen, v0) \<Longrightarrow>
     offset \<le> thisLen \<Longrightarrow> substr b m v offset len = Inr (r, v1) \<Longrightarrow> produced m r"
| by_substr_source:
    "produced m v \<Longrightarrow> substr b m v offset len = Inr (r, v1) \<Longrightarrow> produced m v1"

section \<open>Concurrent calls of \<^verbatim>\<open>c_str()\<close>\<close>

text \<open>
  Threads that call \<^verbatim>\<open>c_str()\<close> on one view share the view object and the free store. Every
  access of a thread to the shared state is one step of that thread, and the steps of the
  threads interleave: the operations on the \<^verbatim>\<open>std::atomic\<close> members use the default
  sequentially consistent ordering, so there is one order of all of them.

  The control points of a call: at the entry; before the read of \<^verbatim>\<open>m_NullTerminatedPtr\<close>;
  before \<^verbatim>\<open>new[]\<close>; holding the block \<^verbatim>\<open>nullTerminatedCopy\<close> before it is filled; before the
  compare-and-exchange; before \<^verbatim>\<open>delete[]\<close>, holding the block and the value left in
  \<^verbatim>\<open>expected\<close>; returned with a pointer; and stopped by a fault or an exception.
\<close>

datatype pc =
    AtEntry
  | AtLoad
  | AtNew
  | AtCopy ptr
  | AtCAS ptr
  | AtDelete ptr uintptr_t
  | Returned ptr
  | Threw error

text \<open>
  One step of a thread at control point \<open>pc\<close> on the shared view \<open>this\<close> and heap \<open>h\<close>, the
  statements being those of \<open>c_str\<close> above; \<open>a\<close> is the allocator's answer if the step is the
  call of \<^verbatim>\<open>new[]\<close>. The compare-and-exchange acts on the value that \<^verbatim>\<open>m_NullTerminatedPtr\<close>
  holds at the time of the step. \<^verbatim>\<open>memcpy\<close> and the store of the terminator are one step: they
  write to the block that \<^verbatim>\<open>new[]\<close> has just returned, whose address no other thread has
  before the compare-and-exchange, and read the viewed range, which no call writes. A call
  that has returned or stopped takes no further step.
\<close>

fun thread_step ::
  "build \<Rightarrow> ptr \<Rightarrow> ptr option \<Rightarrow> pc \<Rightarrow> view \<Rightarrow> ('c::zero) heap \<Rightarrow> pc \<times> view \<times> 'c heap" where
  "thread_step b nullChar a AtEntry this h =
     (case empty_view b (mem h) this of
        Inl e \<Rightarrow> (Threw e, this, h)
      | Inr is_empty \<Rightarrow>
          if is_empty then (Returned nullChar, this, h) else (AtLoad, this, h))"
| "thread_step b nullChar a AtLoad this h =
     (let v = m_NullTerminatedPtr this
      in if v = 1 then
           (if b = Debug then
              (case length_view b (mem h) this of
                 Inl e \<Rightarrow> (Threw e, this, h)
               | Inr (len, this1) \<Rightarrow>
                   (case load (mem h) (m_Begin this1) len of
                      Inl e \<Rightarrow> (Threw e, this1, h)
                    | Inr c \<Rightarrow>
                        if c = 0 then (Returned (m_Begin this1), this1, h)
                        else (Threw AssertionFailed, this1, h)))
            else (Returned (m_Begin this), this, h))
         else if v = 0 then (AtNew, this, h)
         else (Returned v, this, h))"
| "thread_step b nullChar a AtNew this h =
     (if b = Debug \<and> m_Length this = SIZE_MAX then (Threw AssertionFailed, this, h)
      else
        (case new_arr a h (m_Length this + 1) of
           Inl e \<Rightarrow> (Threw e, this, h)
         | Inr (nullTerminatedCopy, h1) \<Rightarrow>
             if b = Debug \<and> nullTerminatedCopy AND 1 \<noteq> 0 then (Threw AssertionFailed, this, h1)
             else (AtCopy nullTerminatedCopy, this, h1)))"
| "thread_step b nullChar a (AtCopy nullTerminatedCopy) this h =
     (case memcpy (mem h) nullTerminatedCopy (m_Begin this) (m_Length this) of
        Inl e \<Rightarrow> (Threw e, this, h)
      | Inr m2 \<Rightarrow>
          (AtCAS nullTerminatedCopy, this,
           h\<lparr>mem := m2(nullTerminatedCopy + m_Length this := 0)\<rparr>))"
| "thread_step b nullChar a (AtCAS nullTerminatedCopy) this h =
     (case compare_exchange_strong (m_NullTerminatedPtr this) 0 nullTerminatedCopy of
        (True, nt, expected) \<Rightarrow>
          (Returned nullTerminatedCopy, this\<lparr>m_NullTerminatedPtr := nt\<rparr>, h)
      | (False, nt, expected) \<Rightarrow>
          (AtDelete nullTerminatedCopy expected, this\<lparr>m_NullTerminatedPtr := nt\<rparr>, h))"
| "thread_step b nullChar a (AtDelete nullTerminatedCopy expected) this h =
     (case delete_arr h nullTerminatedCopy of
        Inl e \<Rightarrow> (Threw e, this, h)
      | Inr h1 \<Rightarrow> (Returned expected, this, h1))"
| "thread_step b nullChar a (Returned p) this h = (Returned p, this, h)"
| "thread_step b nullChar a (Threw e) this h = (Threw e, this, h)"

text \<open>
  A call run on its own: the steps of one thread, one after the other. \<open>a\<close> is the answer
  of the allocator.
\<close>

fun run_thread ::
  "nat \<Rightarrow> build \<Rightarrow> ptr \<Rightarrow> ptr option \<Rightarrow> pc \<times> view \<times> ('c::zero) heap \<Rightarrow> pc \<times> view \<times> 'c heap" where
  "run_thread 0 b nullChar a st = st"
| "run_thread (Suc n) b nullChar a (pc, this, h) =
     run_thread n b nullChar a (thread_step b nullChar a pc this h)"

text \<open>
  The shared view, the shared free store, and the control point of every thread.
\<close>

record 'c system =
  shared_view :: view
  shared_heap :: "'c heap"
  threads :: "pc list"

text \<open>
  What the allocator owes for a block of \<open>n\<close> code units at \<open>p\<close>: the address is not null and
  even, it is not the address of an allocated block, and no address lies both in the new block
  and in an allocated one. Allocated blocks do not overlap.
\<close>

definition alloc_fresh :: "'c heap \<Rightarrow> ptr option \<Rightarrow> size_t \<Rightarrow> bool" where
  "alloc_fresh h a n \<longleftrightarrow>
     (case a of
        None \<Rightarrow> True
      | Some p \<Rightarrow>
          p \<noteq> 0 \<and> p AND 1 = 0 \<and> live h p = None \<and>
          (\<forall>q k z. live h q = Some k \<longrightarrow> z - q < k \<longrightarrow> \<not> z - p < n))"


text \<open>
  A step of the system is a step of one of its threads.
\<close>

inductive step :: "build \<Rightarrow> ptr \<Rightarrow> ('c::zero) system \<Rightarrow> 'c system \<Rightarrow> bool"
  for b :: build and nullChar :: ptr where
  thread:
    "i < length (threads s) \<Longrightarrow>
     alloc_fresh (shared_heap s) a (m_Length (shared_view s) + 1) \<Longrightarrow>
     thread_step b nullChar a (threads s ! i) (shared_view s) (shared_heap s) = (pc1, v1, h1) \<Longrightarrow>
     step b nullChar s \<lparr>shared_view = v1, shared_heap = h1, threads = (threads s)[i := pc1]\<rparr>"






text \<open>
  The block that a thread holds and no other thread knows.
\<close>

definition private_block :: "pc \<Rightarrow> ptr option" where
  "private_block c =
     (case c of
        AtCopy p \<Rightarrow> Some p
      | AtCAS p \<Rightarrow> Some p
      | AtDelete p e \<Rightarrow> Some p
      | _ \<Rightarrow> None)"

text \<open>
  The invariant of the interleaving, for a view of length \<open>L\<close> over a heap whose allocated
  blocks were \<open>l0\<close> when the calls began. Of a thread: it has passed the test of \<^verbatim>\<open>empty()\<close>
  only if \<open>L\<close> is not 0; the block it holds is not null, even, not the installed one and was
  not allocated at the beginning; before the compare-and-exchange the block has its
  terminator; a thread that lost holds in \<^verbatim>\<open>expected\<close> the installed pointer; a thread that
  returned has the static terminator if the view is empty and the installed pointer
  otherwise; and only \<^verbatim>\<open>new[]\<close> stops a thread.
\<close>

definition thread_ok :: "ptr \<Rightarrow> size_t \<Rightarrow> uintptr_t \<Rightarrow> ('c::zero) heap \<Rightarrow> (ptr \<Rightarrow> size_t option) \<Rightarrow> pc \<Rightarrow> bool" where
  "thread_ok nullChar L t h l0 c =
     (case c of
        AtEntry \<Rightarrow> True
      | AtLoad \<Rightarrow> L \<noteq> 0
      | AtNew \<Rightarrow> L \<noteq> 0
      | AtCopy p \<Rightarrow> L \<noteq> 0 \<and> p \<noteq> 0 \<and> p AND 1 = 0 \<and> p \<noteq> t \<and> l0 p = None
      | AtCAS p \<Rightarrow>
          L \<noteq> 0 \<and> p \<noteq> 0 \<and> p AND 1 = 0 \<and> p \<noteq> t \<and> l0 p = None \<and> mem h (p + L) = 0
      | AtDelete p e \<Rightarrow>
          L \<noteq> 0 \<and> p \<noteq> 0 \<and> p AND 1 = 0 \<and> p \<noteq> t \<and> l0 p = None \<and> e = t \<and> t \<noteq> 0
      | Returned p \<Rightarrow> if L = 0 then p = nullChar else p = t \<and> t \<noteq> 0
      | Threw e \<Rightarrow> L \<noteq> 0 \<and> e = BadAlloc)"


section \<open>Example memories\<close>

text \<open>
  The string \<^verbatim>\<open>"abc"\<close> with its terminator at addresses 100 to 103 and the static terminator
  of \<^verbatim>\<open>c_str()\<close> at address 500, in a memory of 8-bit code units whose other cells hold 7; and a
  heap over it with no allocated block.
\<close>

definition mem_abc :: "8 word memory" where
  "mem_abc = (\<lambda>x. 7)(100 := 97, 101 := 98, 102 := 99, 103 := 0, 500 := 0)"

definition heap_abc :: "8 word heap" where
  "heap_abc = \<lparr>mem = mem_abc, live = (\<lambda>x. None)\<rparr>"

text \<open>
  Two view objects: object 0 is empty, object 1 is a view of \<^verbatim>\<open>"abc"\<close> that owns a
  null-terminated copy in the allocated block of 4 code units at address 200.
\<close>

definition state_abc :: "8 word state" where
  "state_abc =
     \<lparr>objects = (\<lambda>i. ctor_default)
                  (1 := \<lparr>m_Length = 3, m_Begin = 100, m_NullTerminatedPtr = 200\<rparr>),
      free_store = \<lparr>mem = mem_abc(200 := 97, 201 := 98, 202 := 99, 203 := 0),
                    live = (\<lambda>x. None)(200 \<mapsto> 4)\<rparr>\<rparr>"



section \<open>Construction with an asserted terminator\<close>

text \<open>
  Claim C5, as stated, at length 0: the caller's terminator is present at \<^verbatim>\<open>p + 0\<close>, and the
  view that a release build constructs has length 0 but is not self-terminated: the
  constructor sets \<^verbatim>\<open>m_Begin\<close> and the tag only under \<^verbatim>\<open>if(length)\<close>.
\<close>

theorem ctor_still_empty_counterexample:
  "mem_abc (103 + 0) = 0 \<and>
   ctor_still Release mem_abc 103 0 = Inr ctor_default \<and>
   m_Length ctor_default = 0 \<and>
   termination_of ctor_default = NotTerminated"
  by (simp add: mem_abc_def ctor_still_def ctor_default_def termination_of_def)

text \<open>
  Claim C5, amended: for a pointer \<open>str\<close> and a length \<open>len\<close> other than 0, the constructor
  with \<^verbatim>\<open>StillNullTerminated\<close> yields the view of length \<open>len\<close> at \<open>str\<close>, self-terminated.
  Only a debug build looks for the terminator at \<^verbatim>\<open>str + len\<close>: it fails its assertion when
  the terminator is absent, and a release build constructs the view whatever the memory
  holds. With length 0 a release build yields the empty view (null \<^verbatim>\<open>m_Begin\<close>, not
  terminated).
\<close>

theorem ctor_still_nonempty:
  assumes "len \<noteq> 0"
  shows "ctor_still Release m str len =
           Inr \<lparr>m_Length = len, m_Begin = str, m_NullTerminatedPtr = 1\<rparr> \<and>
         termination_of \<lparr>m_Length = len, m_Begin = str, m_NullTerminatedPtr = 1\<rparr> = SelfTerminated \<and>
         (str \<noteq> 0 \<longrightarrow>
            ctor_still Debug m str len =
              (if m (str + len) = 0
               then Inr \<lparr>m_Length = len, m_Begin = str, m_NullTerminatedPtr = 1\<rparr>
               else Inl AssertionFailed)) \<and>
         ctor_still Release m str 0 = Inr ctor_default"
  using assms
  by (simp add: ctor_still_def termination_of_def load_def ctor_default_def)

text \<open>
  Claim C5, the amended statement at \<^verbatim>\<open>"abc"\<close>: length 3 is accepted by both builds, length 2
  (no terminator behind \<^verbatim>\<open>"ab"\<close>) fails the assertion of the debug build.
\<close>

theorem ctor_still_nonempty_witness:
  "(3 :: size_t) \<noteq> 0 \<and>
   ctor_still Release mem_abc 100 3 = Inr \<lparr>m_Length = 3, m_Begin = 100, m_NullTerminatedPtr = 1\<rparr> \<and>
   ctor_still Debug mem_abc 100 3 = Inr \<lparr>m_Length = 3, m_Begin = 100, m_NullTerminatedPtr = 1\<rparr> \<and>
   ctor_still Debug mem_abc 100 2 = Inl AssertionFailed"
  using ctor_still_nonempty [of 3 mem_abc 100] ctor_still_nonempty [of 2 mem_abc 100]
  by (simp add: mem_abc_def)

section \<open>Construction from a string object\<close>

text \<open>
  Claim C6, as stated, at the empty string: the view reaches the end of the string
  (offset 0 plus length 0 is the string's length) and is not self-terminated, because the
  constructor sets the tag only under \<^verbatim>\<open>if(m_Length)\<close>.
\<close>

theorem ctor_string_empty_counterexample:
  "valid_string mem_abc \<lparr>s_data = 103, s_length = 0\<rparr> \<and>
   ctor_string Release \<lparr>s_data = 103, s_length = 0\<rparr> 0 SIZE_MAX = Inr ctor_default \<and>
   0 + m_Length ctor_default = s_length \<lparr>s_data = 103, s_length = 0\<rparr> \<and>
   termination_of ctor_default = NotTerminated"
  by (simp add: valid_string_def mem_abc_def ctor_string_def ctor_default_def termination_of_def)

text \<open>
  Claim C6, amended: for a string object, an offset that does not exceed its length and any
  requested length, the constructor yields a view of length
  \<open>min len (s_length str - offset)\<close>; the view is self-terminated if it is not empty and
  reaches the end of the string, and not terminated otherwise (so an empty view is never
  self-terminated). A view that is not empty begins at the string's buffer plus the offset.
\<close>

theorem ctor_string_clamped:
  assumes "offset \<le> s_length str"
  shows "\<exists>v. ctor_string b str offset len = Inr v \<and>
           m_Length v = min len (s_length str - offset) \<and>
           (m_Length v \<noteq> 0 \<longrightarrow> m_Begin v = s_data str + offset) \<and>
           termination_of v =
             (if m_Length v \<noteq> 0 \<and> offset + m_Length v = s_length str
              then SelfTerminated else NotTerminated)"
proof -
  have reach: "offset + n = s_length str \<longleftrightarrow> n = s_length str - offset" for n
    using eq_diff_eq [of n "s_length str" offset] by (simp add: add.commute)
  show ?thesis
    using assms by (simp add: ctor_string_def Let_def termination_of_def reach)
qed

text \<open>
  Claim C6, the amended statement at the string \<^verbatim>\<open>"abc"\<close> and offset 1: the unbounded slice
  \<^verbatim>\<open>"bc"\<close> is self-terminated, the slice \<^verbatim>\<open>"b"\<close> is not.
\<close>

theorem ctor_string_clamped_witness:
  "(1 :: size_t) \<le> s_length \<lparr>s_data = 100, s_length = 3\<rparr> \<and>
   ctor_string Debug \<lparr>s_data = 100, s_length = 3\<rparr> 1 SIZE_MAX =
     Inr \<lparr>m_Length = 2, m_Begin = 101, m_NullTerminatedPtr = 1\<rparr> \<and>
   ctor_string Debug \<lparr>s_data = 100, s_length = 3\<rparr> 1 1 =
     Inr \<lparr>m_Length = 1, m_Begin = 101, m_NullTerminatedPtr = 0\<rparr>"
proof -
  have le: "(1 :: size_t) \<le> s_length \<lparr>s_data = 100, s_length = 3\<rparr>"
    by simp
  from ctor_string_clamped [OF le, of Debug SIZE_MAX] ctor_string_clamped [OF le, of Debug 1]
  show ?thesis
    by (simp add: ctor_string_def SIZE_MAX_def)
qed

section \<open>Self-assignment\<close>

text \<open>
  Claim C10: copy-assigning and move-assigning a view object to itself return the state they
  were given: every field of every view, the memory and the set of allocated blocks are
  unchanged, so an owned copy is not released and a pointer that \<^verbatim>\<open>c_str()\<close> returned earlier
  still points to it.
\<close>

theorem self_assignment_noop:
  "copy_assign s this this = Inr s \<and> move_assign s this this = Inr s"
  by (simp add: copy_assign_def move_assign_def)

section \<open>Scanning for the terminator\<close>

text \<open>
  \<^verbatim>\<open>tstrlen\<close> returns \<open>k\<close> exactly when the pointer is not null, the \<open>k\<close> code units and their
  terminator lie within the address space, the first terminator is at offset \<open>k\<close>.
\<close>

lemma unat_bound64: "unat (w :: 64 word) < 2 ^ 64"
  using unsigned_less [of w, where ?'a = nat] by simp

lemma unat_succ_no_wrap:
  fixes sz n :: "64 word"
  assumes "unat sz + unat n < 2 ^ 64" and "sz + (n + 1) \<noteq> 0"
  shows "unat (n + 1) = unat n + 1 \<and> unat sz + unat (n + 1) < 2 ^ 64"
proof -
  have n1: "unat n + 1 < 2 ^ 64 \<Longrightarrow> unat (n + 1) = unat n + 1"
    using unat_add_lem [of n 1] by simp
  have "unat sz + unat n + 1 \<noteq> 2 ^ 64"
  proof
    assume top: "unat sz + unat n + 1 = 2 ^ 64"
    have "sz + (n + 1) = of_nat (unat sz + unat n + 1)"
      by simp
    also have "\<dots> = (0 :: 64 word)"
      unfolding top by simp
    finally show False using assms(2) by simp
  qed
  with assms(1) have lt: "unat sz + unat n + 1 < 2 ^ 64"
    by linarith
  then have "unat n + 1 < 2 ^ 64" by linarith
  with n1 lt show ?thesis by simp
qed

lemma tstrlen_from_sound:
  "tstrlen_from m sz n = Inr k \<Longrightarrow> unat sz + unat n < 2 ^ 64 \<Longrightarrow>
   unat n \<le> unat k \<and> unat sz + unat k < 2 ^ 64 \<and> sz + k \<noteq> 0 \<and> m (sz + k) = 0 \<and>
   (\<forall>i. unat n \<le> unat i \<and> unat i < unat k \<longrightarrow> m (sz + i) \<noteq> 0)"
proof (induction m sz n rule: tstrlen_from.induct)
  case (1 m sz n)
  show ?case
  proof (cases "sz + n = 0 \<or> m (sz + n) = 0")
    case True
    with "1.prems" show ?thesis
      by (auto simp: tstrlen_from.simps [of m sz n] split: if_splits)
  next
    case False
    then have rec: "tstrlen_from m sz (n + 1) = Inr k"
      using "1.prems"(1) by (simp add: tstrlen_from.simps [of m sz n])
    have "sz + (n + 1) \<noteq> 0"
    proof
      assume "sz + (n + 1) = 0"
      then have "tstrlen_from m sz (n + 1) = Inl AccessViolation"
        by (simp add: tstrlen_from.simps [of m sz "n + 1"])
      with rec show False by simp
    qed
    with "1.prems"(2) have step: "unat (n + 1) = unat n + 1" "unat sz + unat (n + 1) < 2 ^ 64"
      using unat_succ_no_wrap [of sz n] by simp_all
    from False have nz: "sz + n \<noteq> 0" "m (sz + n) \<noteq> 0" by simp_all
    from "1.IH" [OF nz rec step(2)]
    have ih: "unat (n + 1) \<le> unat k" "unat sz + unat k < 2 ^ 64" "sz + k \<noteq> 0" "m (sz + k) = 0"
      "\<And>i. unat (n + 1) \<le> unat i \<Longrightarrow> unat i < unat k \<Longrightarrow> m (sz + i) \<noteq> 0"
      by simp_all
    have "m (sz + i) \<noteq> 0" if "unat n \<le> unat i" "unat i < unat k" for i
    proof (cases "unat i = unat n")
      case True
      then have "i = n" by (simp add: word_unat_eq_iff)
      with nz show ?thesis by simp
    next
      case False
      with that step have "unat (n + 1) \<le> unat i" by simp
      with ih(5) that show ?thesis by simp
    qed
    with ih step show ?thesis by simp
  qed
qed

lemma tstrlen_from_complete:
  "unat sz + unat k < 2 ^ 64 \<Longrightarrow> sz \<noteq> 0 \<Longrightarrow> m (sz + k) = 0 \<Longrightarrow>
   (\<forall>i. unat n \<le> unat i \<and> unat i < unat k \<longrightarrow> m (sz + i) \<noteq> 0) \<Longrightarrow>
   unat n \<le> unat k \<Longrightarrow> tstrlen_from m sz n = Inr k"
proof (induction "unat k - unat n" arbitrary: n)
  case 0
  then have "n = k" by (simp add: word_unat_eq_iff)
  moreover have "sz + k \<noteq> 0"
  proof -
    have "unat (sz + k) = unat sz + unat k"
      using "0.prems"(1) unat_add_lem [of sz k] by simp
    moreover have "unat sz \<noteq> 0" using "0.prems"(2) by (simp add: unat_eq_0)
    ultimately have "unat (sz + k) \<noteq> 0" by simp
    then show ?thesis by (simp add: unat_eq_0)
  qed
  ultimately show ?case
    using "0.prems"(3) by (simp add: tstrlen_from.simps [of m sz k])
next
  case (Suc d)
  then have lt: "unat n < unat k" by simp
  have n1: "unat (n + 1) = unat n + 1"
    using unat_add_lem [of n 1] lt unat_bound64 [of k] by simp
  have "unat (sz + n) = unat sz + unat n"
    using Suc.prems(1) lt unat_add_lem [of sz n] by simp
  moreover have "unat sz \<noteq> 0" using Suc.prems(2) by (simp add: unat_eq_0)
  ultimately have "unat (sz + n) \<noteq> 0" by simp
  then have nz: "sz + n \<noteq> 0" by (simp add: unat_eq_0)
  have here: "m (sz + n) \<noteq> 0" using Suc.prems(4) lt by simp
  have "tstrlen_from m sz (n + 1) = Inr k"
  proof (rule Suc.hyps(1))
    show "d = unat k - unat (n + 1)" using Suc.hyps(2) n1 by simp
    show "\<forall>i. unat (n + 1) \<le> unat i \<and> unat i < unat k \<longrightarrow> m (sz + i) \<noteq> 0"
      using Suc.prems(4) n1 by simp
    show "unat (n + 1) \<le> unat k" using lt n1 by simp
  qed (use Suc.prems in simp_all)
  with nz here show ?case
    by (simp add: tstrlen_from.simps [of m sz n])
qed

lemma tstrlen_Inr_iff:
  "tstrlen m sz = Inr k \<longleftrightarrow>
     sz \<noteq> 0 \<and> unat sz + unat k < 2 ^ 64 \<and> m (sz + k) = 0 \<and> (\<forall>i. i < k \<longrightarrow> m (sz + i) \<noteq> 0)"
proof
  assume r: "tstrlen m sz = Inr k"
  have "sz \<noteq> 0"
  proof
    assume "sz = 0"
    then have "tstrlen m sz = Inl AccessViolation"
      by (simp add: tstrlen_def tstrlen_from.simps [of m 0 0])
    with r show False by simp
  qed
  moreover have "unat sz + unat (0 :: 64 word) < 2 ^ 64"
    using unat_bound64 [of sz] by simp
  ultimately show "sz \<noteq> 0 \<and> unat sz + unat k < 2 ^ 64 \<and> m (sz + k) = 0 \<and> (\<forall>i. i < k \<longrightarrow> m (sz + i) \<noteq> 0)"
    using tstrlen_from_sound [of m sz 0 k] r
    by (simp add: tstrlen_def word_less_nat_alt)
next
  assume "sz \<noteq> 0 \<and> unat sz + unat k < 2 ^ 64 \<and> m (sz + k) = 0 \<and> (\<forall>i. i < k \<longrightarrow> m (sz + i) \<noteq> 0)"
  then show "tstrlen m sz = Inr k"
    using tstrlen_from_complete [of sz k m 0]
    by (simp add: tstrlen_def word_less_nat_alt)
qed

lemma tstrlen_shift:
  assumes "tstrlen m sz = Inr L" and "offset \<le> L"
  shows "tstrlen m (sz + offset) = Inr (L - offset)"
proof -
  from assms(1) have c: "sz \<noteq> 0" "unat sz + unat L < 2 ^ 64" "m (sz + L) = 0"
    "\<And>i. i < L \<Longrightarrow> m (sz + i) \<noteq> 0"
    by (simp_all add: tstrlen_Inr_iff)
  have ol: "unat offset \<le> unat L" using assms(2) by (simp add: word_le_nat_alt)
  have so: "unat (sz + offset) = unat sz + unat offset"
    using c(2) ol unat_add_lem [of sz offset] by simp
  have lo: "unat (L - offset) = unat L - unat offset"
    using assms(2) by (simp add: unat_sub)
  have "unat sz \<noteq> 0" using c(1) by (simp add: unat_eq_0)
  with so have "unat (sz + offset) \<noteq> 0" by simp
  then have nz: "sz + offset \<noteq> 0" by (simp add: unat_eq_0)
  have "m (sz + offset + i) \<noteq> 0" if "i < L - offset" for i
  proof -
    from that have "unat i < unat L - unat offset"
      using lo by (simp add: word_less_nat_alt)
    then have "unat offset + unat i < unat L" by simp
    moreover from this have "unat (offset + i) = unat offset + unat i"
      using unat_add_lem [of offset i] unat_bound64 [of L] by simp
    ultimately have "offset + i < L" by (simp add: word_less_nat_alt)
    from c(4) [OF this] show ?thesis by (simp add: add.assoc)
  qed
  with nz so lo ol c show ?thesis
    by (simp add: tstrlen_Inr_iff)
qed

lemma SIZE_MAX_unat: "unat SIZE_MAX = 2 ^ 64 - 1"
  by (simp add: SIZE_MAX_def unsigned_minus_1_eq_mask mask_eq_exp_minus_1)

lemma tstrlen_not_SIZE_MAX: "tstrlen m sz = Inr L \<Longrightarrow> L \<noteq> SIZE_MAX"
proof
  assume r: "tstrlen m sz = Inr L" and top: "L = SIZE_MAX"
  from r have "sz \<noteq> 0" "unat sz + unat L < 2 ^ 64"
    by (simp_all add: tstrlen_Inr_iff)
  moreover from this(1) have "unat sz \<noteq> 0" by (simp add: unat_eq_0)
  ultimately show False using top by (simp add: SIZE_MAX_unat)
qed

lemma SIZE_MAX_not_0 [simp]: "SIZE_MAX \<noteq> 0" "0 \<noteq> SIZE_MAX"
  by (simp_all add: SIZE_MAX_def)

lemma valid_range_not_SIZE_MAX: "valid_range p n \<Longrightarrow> n \<noteq> SIZE_MAX"
proof
  assume v: "valid_range p n" and top: "n = SIZE_MAX"
  then have "p \<noteq> 0" "unat p + unat n < 2 ^ 64"
    by (simp_all add: valid_range_def)
  moreover from this(1) have "unat p \<noteq> 0" by (simp add: unat_eq_0)
  ultimately show False using top by (simp add: SIZE_MAX_unat)
qed

section \<open>The invariant\<close>

text \<open>The resolved length of a well-formed view.\<close>

lemma length_view_wf:
  assumes "wf_view m v"
  shows "\<exists>L. length_view b m v = Inr (L, v\<lparr>m_Length := L\<rparr>) \<and> L \<noteq> SIZE_MAX \<and>
           wf_view m (v\<lparr>m_Length := L\<rparr>) \<and>
           (if m_Length v = SIZE_MAX then tstrlen m (m_Begin v) = Inr L else L = m_Length v)"
proof (cases "m_Length v = SIZE_MAX")
  case True
  with assms obtain L where L: "tstrlen m (m_Begin v) = Inr L" and nt: "m_NullTerminatedPtr v = 1"
    by (auto simp: wf_view_def split: sum.splits)
  from L have ne: "L \<noteq> SIZE_MAX" by (rule tstrlen_not_SIZE_MAX)
  from L have "m_Begin v \<noteq> 0" "unat (m_Begin v) + unat L < 2 ^ 64" "m (m_Begin v + L) = 0"
    by (simp_all add: tstrlen_Inr_iff)
  with ne nt have "wf_view m (v\<lparr>m_Length := L\<rparr>)"
    by (simp add: wf_view_def valid_range_def)
  with True L ne nt show ?thesis
    by (simp add: length_view_def)
next
  case False
  with assms show ?thesis
    by (simp add: length_view_def)
qed

lemma length_view_build:
  assumes "wf_view m v"
  shows "length_view b m v = length_view Release m v"
  using assms by (auto simp: length_view_def wf_view_def)

lemma length_view_resolved:
  assumes "wf_view m v" and "length_view b m v = Inr (L, v1)"
  shows "v1 = v\<lparr>m_Length := L\<rparr> \<and> L \<noteq> SIZE_MAX \<and> wf_view m v1 \<and>
         (if m_Length v = SIZE_MAX then tstrlen m (m_Begin v) = Inr L else L = m_Length v)"
  using length_view_wf [OF assms(1), of b] assms(2) by auto

lemma range_shift:
  fixes p L offset :: "64 word"
  assumes "p \<noteq> 0" and "unat p + unat L < 2 ^ 64" and "offset \<le> L"
  shows "p + offset \<noteq> 0 \<and> unat (p + offset) + unat (L - offset) < 2 ^ 64 \<and>
         p + offset + (L - offset) = p + L"
proof -
  have ol: "unat offset \<le> unat L" using assms(3) by (simp add: word_le_nat_alt)
  have so: "unat (p + offset) = unat p + unat offset"
    using assms(2) ol unat_add_lem [of p offset] by simp
  have lo: "unat (L - offset) = unat L - unat offset"
    using assms(3) by (simp add: unat_sub)
  have "unat p \<noteq> 0" using assms(1) by (simp add: unat_eq_0)
  with so have "unat (p + offset) \<noteq> 0" by simp
  then have "p + offset \<noteq> 0" by (simp add: unat_eq_0)
  with so lo ol assms(2) show ?thesis by simp
qed

lemma valid_range_shift:
  assumes "valid_range p L" and "offset \<le> L" and "n \<le> L - offset"
  shows "valid_range (p + offset) n"
proof (cases "n = 0")
  case True
  then show ?thesis by (simp add: valid_range_def)
next
  case False
  have "L \<noteq> 0"
  proof
    assume "L = 0"
    with assms(2) have "offset = 0" by simp
    with \<open>L = 0\<close> assms(3) False show False by simp
  qed
  with assms(1) have p: "p \<noteq> 0" "unat p + unat L < 2 ^ 64"
    by (simp_all add: valid_range_def)
  from range_shift [OF p assms(2)] assms(3) show ?thesis
    by (simp add: valid_range_def word_le_nat_alt)
qed

text \<open>The buffer of a well-formed view of resolved length \<open>L\<close>.\<close>

lemma wf_resolved_range:
  assumes "wf_view m v" and "length_view b m v = Inr (L, v1)"
  shows "valid_range (m_Begin v) L \<and> m_Begin v1 = m_Begin v \<and>
         m_NullTerminatedPtr v1 = m_NullTerminatedPtr v \<and> m_Length v1 = L \<and>
         (m_NullTerminatedPtr v = 1 \<longrightarrow>
            m_Begin v \<noteq> 0 \<and> unat (m_Begin v) + unat L < 2 ^ 64 \<and> m (m_Begin v + L) = 0)"
proof -
  from length_view_resolved [OF assms]
  have r: "v1 = v\<lparr>m_Length := L\<rparr>" "L \<noteq> SIZE_MAX" "wf_view m v1"
    "if m_Length v = SIZE_MAX then tstrlen m (m_Begin v) = Inr L else L = m_Length v"
    by blast+
  show ?thesis
  proof (cases "m_Length v = SIZE_MAX")
    case True
    with r(4) have "tstrlen m (m_Begin v) = Inr L" by simp
    then have "m_Begin v \<noteq> 0" "unat (m_Begin v) + unat L < 2 ^ 64" "m (m_Begin v + L) = 0"
      by (simp_all add: tstrlen_Inr_iff)
    with r(1) show ?thesis by (simp add: valid_range_def)
  next
    case False
    with r(4) have L: "L = m_Length v" by simp
    with False assms(1) have "valid_range (m_Begin v) L"
      "m_NullTerminatedPtr v = 1 \<longrightarrow> m_Begin v \<noteq> 0 \<and> m (m_Begin v + L) = 0"
      by (simp_all add: wf_view_def)
    moreover have "unat (m_Begin v) + unat L < 2 ^ 64" if "m_Begin v \<noteq> 0"
      using that \<open>valid_range (m_Begin v) L\<close> unat_bound64 [of "m_Begin v"]
      by (auto simp: valid_range_def)
    ultimately show ?thesis using r(1) by simp
  qed
qed

lemma substr_unknown_unbounded:
  assumes "wf_view m v" and "m_Length v = SIZE_MAX" and "tstrlen m (m_Begin v) = Inr L"
    and "offset \<le> L"
  shows "substr b m v offset SIZE_MAX =
           Inr (\<lparr>m_Length = SIZE_MAX, m_Begin = m_Begin v + offset, m_NullTerminatedPtr = 1\<rparr>, v)"
proof -
  from assms(1,2) have nt: "m_NullTerminatedPtr v = 1" by (simp add: wf_view_def)
  from tstrlen_shift [OF assms(3,4)] have "m_Begin v + offset \<noteq> 0"
    by (simp add: tstrlen_Inr_iff)
  with assms(2) nt show ?thesis
    by (simp add: substr_def ctor_sz_def)
qed

lemma substr_resolved:
  assumes "wf_view m v" and "length_view Release m v = Inr (L, v0)" and "offset \<le> L"
    and "\<not> (m_Length v = SIZE_MAX \<and> len = SIZE_MAX)"
  shows "substr b m v offset len =
           (let n = min len (L - offset)
            in if m_NullTerminatedPtr v = 1 \<and> n = L - offset then
                 (if n = 0 then (if b = Debug then Inl AccessViolation else Inr (ctor_default, v0))
                  else Inr (\<lparr>m_Length = n, m_Begin = m_Begin v + offset,
                             m_NullTerminatedPtr = 1\<rparr>, v0))
               else Inr (ctor_ptr_len (m_Begin v + offset) n, v0))"
proof -
  have lv: "length_view b m v = Inr (L, v0)"
    using assms(2) length_view_build [OF assms(1), of b] by simp
  from wf_resolved_range [OF assms(1,2)]
  have f: "m_Begin v0 = m_Begin v" "m_NullTerminatedPtr v0 = m_NullTerminatedPtr v"
    "m_NullTerminatedPtr v = 1 \<longrightarrow>
       m_Begin v \<noteq> 0 \<and> unat (m_Begin v) + unat L < 2 ^ 64 \<and> m (m_Begin v + L) = 0"
    by simp_all
  define n where "n = min len (L - offset)"
  have body: "substr b m v offset len =
      (if m_NullTerminatedPtr v = 1 \<and> n = L - offset then
         (case ctor_still b m (m_Begin v + offset) n of
            Inl e \<Rightarrow> Inl e
          | Inr r \<Rightarrow> Inr (r, v0))
       else Inr (ctor_ptr_len (m_Begin v + offset) n, v0))"
    using assms(3) f(1,2)
    by (simp add: substr_def if_not_P [OF assms(4)] lv Let_def n_def)
  have still: "ctor_still b m (m_Begin v + offset) n =
      (if n = 0 then (if b = Debug then Inl AccessViolation else Inr ctor_default)
       else Inr \<lparr>m_Length = n, m_Begin = m_Begin v + offset, m_NullTerminatedPtr = 1\<rparr>)"
    if "m_NullTerminatedPtr v = 1" and "n = L - offset"
  proof -
    from f(3) that have p: "m_Begin v \<noteq> 0" "unat (m_Begin v) + unat L < 2 ^ 64"
      "m (m_Begin v + L) = 0" by simp_all
    from range_shift [OF p(1,2) assms(3)] p(3) that(2) show ?thesis
      by (cases b) (simp_all add: ctor_still_def load_def ctor_default_def)
  qed
  show ?thesis
  proof (cases "m_NullTerminatedPtr v = 1 \<and> n = L - offset")
    case True
    then have "substr b m v offset len =
        (case ctor_still b m (m_Begin v + offset) n of
           Inl e \<Rightarrow> Inl e
         | Inr r \<Rightarrow> Inr (r, v0))"
      using body by simp
    also have "\<dots> =
        (if n = 0 then (if b = Debug then Inl AccessViolation else Inr (ctor_default, v0))
         else Inr (\<lparr>m_Length = n, m_Begin = m_Begin v + offset,
                     m_NullTerminatedPtr = 1\<rparr>, v0))"
      using still True by simp
    finally show ?thesis
      unfolding Let_def n_def [symmetric] by (simp only: if_P [OF True])
  next
    case False
    show ?thesis
      unfolding Let_def n_def [symmetric] by (simp only: body if_not_P [OF False])
  qed
qed

lemma ctor_copy_unknown_unbounded:
  assumes "wf_view m v" and "m_Length v = SIZE_MAX"
  shows "ctor_copy b m v offset SIZE_MAX =
           Inr (\<lparr>m_Length = SIZE_MAX, m_Begin = m_Begin v + offset, m_NullTerminatedPtr = 1\<rparr>, v)"
  using assms by (simp add: ctor_copy_def wf_view_def)

lemma ctor_copy_resolved:
  assumes "wf_view m v" and "length_view Release m v = Inr (L, v0)" and "offset \<le> L"
    and "\<not> (m_Length v = SIZE_MAX \<and> len = SIZE_MAX)"
  shows "ctor_copy b m v offset len =
           (let n = min len (L - offset)
            in if n = 0 then Inr (ctor_default, v0)
               else if m_NullTerminatedPtr v = 1 \<and> n = L - offset then
                 Inr (\<lparr>m_Length = n, m_Begin = m_Begin v + offset, m_NullTerminatedPtr = 1\<rparr>, v0)
               else Inr (ctor_ptr_len (m_Begin v + offset) n, v0))"
proof -
  have lv: "length_view b m v = Inr (L, v0)"
    using assms(2) length_view_build [OF assms(1), of b] by simp
  from wf_resolved_range [OF assms(1,2)]
  have f: "m_Begin v0 = m_Begin v" "m_NullTerminatedPtr v0 = m_NullTerminatedPtr v"
    by simp_all
  with assms(3,4) lv show ?thesis
    by (auto simp: ctor_copy_def Let_def ctor_default_def ctor_ptr_len_def)
qed

lemma wf_ctor_default: "wf_view m ctor_default"
  by (simp add: wf_view_def ctor_default_def valid_range_def)

lemma wf_ctor_sz: "sz = 0 \<or> tstrlen m sz = Inr n \<Longrightarrow> wf_view m (ctor_sz sz)"
  by (auto simp: wf_view_def ctor_sz_def valid_range_def)

lemma wf_ctor_ptr_len: "valid_range str len \<Longrightarrow> wf_view m (ctor_ptr_len str len)"
  using valid_range_not_SIZE_MAX [of str len]
  by (auto simp: wf_view_def ctor_ptr_len_def valid_range_def)

lemma wf_self_terminated:
  assumes "valid_range p n" and "n \<noteq> 0" and "m (p + n) = 0"
  shows "wf_view m \<lparr>m_Length = n, m_Begin = p, m_NullTerminatedPtr = 1\<rparr>"
  using assms valid_range_not_SIZE_MAX [OF assms(1)]
  by (auto simp: wf_view_def valid_range_def)

lemma wf_ctor_still:
  assumes "valid_range str len" and "len = 0 \<or> m (str + len) = 0"
    and "ctor_still b m str len = Inr v"
  shows "wf_view m v"
proof (cases "len = 0")
  case True
  with assms(3) have "v = ctor_default"
    by (auto simp: ctor_still_def Let_def ctor_default_def load_def split: if_splits)
  then show ?thesis by (simp add: wf_ctor_default)
next
  case False
  with assms(3) have "v = \<lparr>m_Length = len, m_Begin = str, m_NullTerminatedPtr = 1\<rparr>"
    by (auto simp: ctor_still_def Let_def load_def split: if_splits sum.splits)
  with False assms(1,2) show ?thesis
    by (simp add: wf_self_terminated)
qed

lemma wf_ctor_string:
  assumes "valid_string m str" and "offset \<le> s_length str"
    and "ctor_string b str offset len = Inr v"
  shows "wf_view m v"
proof -
  define n where "n = min len (s_length str - offset)"
  from assms(1) have s: "s_data str \<noteq> 0" "unat (s_data str) + unat (s_length str) < 2 ^ 64"
    "m (s_data str + s_length str) = 0"
    by (simp_all add: valid_string_def)
  then have "valid_range (s_data str) (s_length str)"
    by (simp add: valid_range_def)
  from valid_range_shift [OF this assms(2), of n]
  have vr: "valid_range (s_data str + offset) n"
    by (simp add: n_def)
  have v: "v = (if n \<noteq> 0 then
                  (if n = s_length str - offset
                   then \<lparr>m_Length = n, m_Begin = s_data str + offset, m_NullTerminatedPtr = 1\<rparr>
                   else ctor_ptr_len (s_data str + offset) n)
                else ctor_default)"
    using assms(2,3)
    by (auto simp: ctor_string_def Let_def n_def ctor_ptr_len_def ctor_default_def)
  show ?thesis
  proof (cases "n \<noteq> 0 \<and> n = s_length str - offset")
    case True
    with range_shift [OF s(1,2) assms(2)] s(3)
    have z: "m (s_data str + offset + n) = 0" by simp
    from True v have "v = \<lparr>m_Length = n, m_Begin = s_data str + offset, m_NullTerminatedPtr = 1\<rparr>"
      by auto
    with True vr z show ?thesis
      using wf_self_terminated [of "s_data str + offset" n m] by blast
  next
    case False
    then have "v = ctor_default \<or> v = ctor_ptr_len (s_data str + offset) n"
      using v by (cases "n = 0") simp_all
    with vr show ?thesis
      by (auto simp: wf_ctor_default wf_ctor_ptr_len)
  qed
qed

text \<open>What a slice of a well-formed view is, whichever of the two operations made it.\<close>

lemma wf_slice:
  assumes "wf_view m v" and "length_view Release m v = Inr (L, v0)" and "offset \<le> L"
  shows "wf_view m (ctor_ptr_len (m_Begin v + offset) (min len (L - offset)))"
    and "m_NullTerminatedPtr v = 1 \<Longrightarrow> L - offset \<noteq> 0 \<Longrightarrow>
         wf_view m \<lparr>m_Length = L - offset, m_Begin = m_Begin v + offset, m_NullTerminatedPtr = 1\<rparr>"
proof -
  from wf_resolved_range [OF assms(1,2)]
  have r: "valid_range (m_Begin v) L"
    "m_NullTerminatedPtr v = 1 \<longrightarrow>
       m_Begin v \<noteq> 0 \<and> unat (m_Begin v) + unat L < 2 ^ 64 \<and> m (m_Begin v + L) = 0"
    by simp_all
  from length_view_resolved [OF assms(1,2)]
  have t: "if m_Length v = SIZE_MAX then tstrlen m (m_Begin v) = Inr L else L = m_Length v"
    by blast
  show "wf_view m (ctor_ptr_len (m_Begin v + offset) (min len (L - offset)))"
    using valid_range_shift [OF r(1) assms(3), of "min len (L - offset)"]
    by (simp add: wf_ctor_ptr_len)
  show "wf_view m \<lparr>m_Length = L - offset, m_Begin = m_Begin v + offset, m_NullTerminatedPtr = 1\<rparr>"
    if "m_NullTerminatedPtr v = 1" "L - offset \<noteq> 0"
  proof -
    from r(2) that(1) have p: "m_Begin v \<noteq> 0" "unat (m_Begin v) + unat L < 2 ^ 64"
      "m (m_Begin v + L) = 0" by simp_all
    from range_shift [OF p(1,2) assms(3)] p(3)
    have "m (m_Begin v + offset + (L - offset)) = 0" by simp
    with valid_range_shift [OF r(1) assms(3), of "L - offset"] that(2)
    show ?thesis by (simp add: wf_self_terminated)
  qed
qed

lemma wf_slice_unknown:
  assumes "tstrlen m p = Inr L" and "offset \<le> L"
  shows "wf_view m \<lparr>m_Length = SIZE_MAX, m_Begin = p + offset, m_NullTerminatedPtr = 1\<rparr>"
  using tstrlen_shift [OF assms] by (simp add: wf_view_def)

lemma wf_length_view:
  "wf_view m v \<Longrightarrow> length_view b m v = Inr (L, v1) \<Longrightarrow> wf_view m v1"
  using length_view_resolved [of m v b L v1] by blast

lemma ctor_copy_source:
  assumes "ctor_copy b m v offset len = Inr (r, v1)"
  shows "v1 = v \<or> (\<exists>L. length_view b m v = Inr (L, v1))"
  using assms
  by (auto simp: ctor_copy_def Let_def split: if_splits sum.splits)

lemma substr_source:
  assumes "substr b m v offset len = Inr (r, v1)"
  shows "v1 = v \<or> (\<exists>L. length_view b m v = Inr (L, v1))"
  using assms
  by (auto simp: substr_def Let_def split: if_splits sum.splits)

lemma wf_ctor_copy_source:
  "wf_view m v \<Longrightarrow> ctor_copy b m v offset len = Inr (r, v1) \<Longrightarrow> wf_view m v1"
  using ctor_copy_source [of b m v offset len r v1] wf_length_view [of m v b _ v1] by auto

lemma wf_substr_source:
  "wf_view m v \<Longrightarrow> substr b m v offset len = Inr (r, v1) \<Longrightarrow> wf_view m v1"
  using substr_source [of b m v offset len r v1] wf_length_view [of m v b _ v1] by auto

lemma wf_ctor_copy:
  assumes "wf_view m v" and "length_view Release m v = Inr (L, v0)" and "offset \<le> L"
    and "ctor_copy b m v offset len = Inr (r, v1)"
  shows "wf_view m r"
proof (cases "m_Length v = SIZE_MAX \<and> len = SIZE_MAX")
  case True
  with length_view_resolved [OF assms(1,2)] have "tstrlen m (m_Begin v) = Inr L"
    by simp
  from wf_slice_unknown [OF this assms(3)] True assms(4)
    ctor_copy_unknown_unbounded [OF assms(1), of b offset]
  show ?thesis by auto
next
  case False
  define n where "n = min len (L - offset)"
  from ctor_copy_resolved [OF assms(1,2,3) False, of b] assms(4)
  have r: "r = (if n = 0 then ctor_default
                else if m_NullTerminatedPtr v = 1 \<and> n = L - offset
                then \<lparr>m_Length = n, m_Begin = m_Begin v + offset, m_NullTerminatedPtr = 1\<rparr>
                else ctor_ptr_len (m_Begin v + offset) n)"
    by (auto simp: Let_def n_def split: if_splits)
  from wf_slice [OF assms(1,2,3)] wf_ctor_default [of m] show ?thesis
    unfolding r n_def by (auto split: if_splits)
qed

lemma wf_substr:
  assumes "wf_view m v" and "length_view Release m v = Inr (L, v0)" and "offset \<le> L"
    and "substr b m v offset len = Inr (r, v1)"
  shows "wf_view m r"
proof (cases "m_Length v = SIZE_MAX \<and> len = SIZE_MAX")
  case True
  with length_view_resolved [OF assms(1,2)] have t: "tstrlen m (m_Begin v) = Inr L"
    by simp
  from wf_slice_unknown [OF t assms(3)] True assms(4)
    substr_unknown_unbounded [OF assms(1) _ t assms(3), of b]
  show ?thesis by auto
next
  case False
  define n where "n = min len (L - offset)"
  from substr_resolved [OF assms(1,2,3) False, of b] assms(4)
  have r: "r = (if m_NullTerminatedPtr v = 1 \<and> n = L - offset then
                  (if n = 0 then ctor_default
                   else \<lparr>m_Length = n, m_Begin = m_Begin v + offset, m_NullTerminatedPtr = 1\<rparr>)
                else ctor_ptr_len (m_Begin v + offset) n)"
    by (auto simp: Let_def n_def split: if_splits)
  from wf_slice [OF assms(1,2,3)] wf_ctor_default [of m] show ?thesis
    unfolding r n_def by (auto split: if_splits)
qed

lemma ctor_move_eq: "ctor_move src = (src, ctor_default)"
  by (simp add: ctor_move_def exchange_def ctor_default_def)

lemma wf_copy_assign:
  assumes "wf_view m (objects s this)" and "wf_view m (objects s src)"
    and "copy_assign s this src = Inr s1"
  shows "wf_view m (objects s1 this)"
proof (cases "src = this")
  case True
  with assms show ?thesis by (simp add: copy_assign_def)
next
  case False
  with assms(3) have "objects s1 this =
      \<lparr>m_Length = m_Length (objects s src), m_Begin = m_Begin (objects s src),
       m_NullTerminatedPtr = (if m_NullTerminatedPtr (objects s src) = 1 then 1 else 0)\<rparr>"
    by (auto simp: copy_assign_def Let_def split: sum.splits if_splits)
  with assms(2) show ?thesis
    by (auto simp: wf_view_def)
qed

lemma move_assign_objects:
  assumes "move_assign s this src = Inr s1" and "src \<noteq> this"
  shows "objects s1 this = objects s src \<and> objects s1 src = ctor_default \<and>
         (\<forall>k. k \<noteq> this \<and> k \<noteq> src \<longrightarrow> objects s1 k = objects s k)"
  using assms
  by (auto simp: move_assign_def Let_def exchange_def ctor_default_def split: sum.splits if_splits)

lemma wf_move_assign:
  assumes "wf_view m (objects s this)" and "wf_view m (objects s src)"
    and "move_assign s this src = Inr s1"
  shows "wf_view m (objects s1 this) \<and> wf_view m (objects s1 src)"
proof (cases "src = this")
  case True
  with assms show ?thesis by (simp add: move_assign_def)
next
  case False
  from move_assign_objects [OF assms(3) False] assms(2) show ?thesis
    by (simp add: wf_ctor_default)
qed

lemma empty_view_wf:
  assumes "wf_view m v" and "length_view Release m v = Inr (L, v0)"
  shows "empty_view b m v = Inr (L = 0)"
proof (cases "m_Length v = SIZE_MAX")
  case True
  with assms(1) have nt: "m_NullTerminatedPtr v = 1" by (simp add: wf_view_def)
  from length_view_resolved [OF assms] True have t: "tstrlen m (m_Begin v) = Inr L"
    by simp
  then have c: "m_Begin v \<noteq> 0" "m (m_Begin v + L) = 0" "\<And>i. i < L \<Longrightarrow> m (m_Begin v + i) \<noteq> 0"
    by (simp_all add: tstrlen_Inr_iff)
  have "m (m_Begin v) = 0 \<longleftrightarrow> L = 0"
  proof
    assume z: "m (m_Begin v) = 0"
    show "L = 0"
    proof (rule ccontr)
      assume "L \<noteq> 0"
      then have "0 < L" by (simp add: word_neq_0_conv)
      from c(3) [OF this] z show False by simp
    qed
  next
    assume "L = 0"
    with c(2) show "m (m_Begin v) = 0" by simp
  qed
  with True nt c(1) show ?thesis by (simp add: empty_view_def)
next
  case False
  with length_view_resolved [OF assms] show ?thesis
    by (simp add: empty_view_def)
qed

lemma c_str_cases:
  assumes "wf_view (mem h) v" and "length_view Release (mem h) v = Inr (L, v0)"
    and "alloc_ok a"
  shows "c_str b nullChar a h v =
           (if L = 0 then Inr (nullChar, v, h)
            else if m_NullTerminatedPtr v = 1 then
              Inr (m_Begin v, if b = Debug then v0 else v, h)
            else if m_NullTerminatedPtr v = 0 then
              (case a of
                 None \<Rightarrow> Inl BadAlloc
               | Some p0 \<Rightarrow>
                   Inr (p0, v\<lparr>m_NullTerminatedPtr := p0\<rparr>,
                        h\<lparr>live := (live h)(p0 \<mapsto> L + 1),
                          mem := (\<lambda>x. if x - p0 < L then mem h (m_Begin v + (x - p0))
                                       else mem h x)
                                    (p0 + L := 0)\<rparr>))
            else Inr (m_NullTerminatedPtr v, v, h))"
proof -
  have e: "empty_view b (mem h) v = Inr (L = 0)"
    by (rule empty_view_wf [OF assms(1,2)])
  have lv: "length_view b (mem h) v = Inr (L, v0)"
    using assms(2) length_view_build [OF assms(1), of b] by simp
  from wf_resolved_range [OF assms(1,2)]
  have r: "valid_range (m_Begin v) L" "m_Begin v0 = m_Begin v"
    "m_NullTerminatedPtr v = 1 \<longrightarrow> m_Begin v \<noteq> 0 \<and> mem h (m_Begin v + L) = 0"
    by simp_all
  show ?thesis
  proof (cases "L = 0")
    case True
    with e show ?thesis by (simp add: c_str_def)
  next
    case nonempty: False
    show ?thesis
    proof (cases "m_NullTerminatedPtr v = 1")
      case True
      with nonempty e lv r show ?thesis
        by (cases b) (simp_all add: c_str_def load_def)
    next
      case not_self: False
      show ?thesis
      proof (cases "m_NullTerminatedPtr v = 0")
        case True
        with assms(1) have known: "m_Length v \<noteq> SIZE_MAX"
          by (auto simp: wf_view_def)
        with length_view_resolved [OF assms(1,2)] have L: "m_Length v = L"
          by simp
        from r(1) nonempty have b0: "m_Begin v \<noteq> 0"
          by (simp add: valid_range_def)
        show ?thesis
        proof (cases a)
          case None
          with True nonempty e known show ?thesis
            by (simp add: c_str_def new_arr_def)
        next
          case (Some p0)
          with assms(3) have p0: "p0 \<noteq> 0" "p0 AND 1 = 0"
            by (simp_all add: alloc_ok_def)
          have cp: "memcpy m' p0 (m_Begin v) L =
              Inr (\<lambda>x. if x - p0 < L then m' (m_Begin v + (x - p0)) else m' x)"
            for m' :: "'a memory"
            using b0 p0(1) by (simp add: memcpy_def)
          from True nonempty e known L p0 Some show ?thesis
            by (simp add: c_str_def new_arr_def cp compare_exchange_strong_def Let_def
                cong: if_cong)
        qed
      next
        case False
        with not_self nonempty e show ?thesis
          by (simp add: c_str_def Let_def)
      qed
    qed
  qed
qed

lemma wf_c_str:
  assumes "wf_view (mem h) v" and "alloc_ok a"
    and "c_str b nullChar a h v = Inr (p, v1, h1)"
  shows "wf_view (mem h1) v1"
proof -
  from length_view_wf [OF assms(1), of Release] obtain L
    where lv: "length_view Release (mem h) v = Inr (L, v\<lparr>m_Length := L\<rparr>)"
      and wf0: "wf_view (mem h) (v\<lparr>m_Length := L\<rparr>)"
    by blast
  note cs = c_str_cases [OF assms(1) lv assms(2), of b nullChar]
  show ?thesis
  proof (cases "L = 0 \<or> m_NullTerminatedPtr v \<noteq> 0")
    case True
    with cs assms(3) have "h1 = h \<and> (v1 = v \<or> v1 = v\<lparr>m_Length := L\<rparr>)"
      by (auto split: if_splits)
    with assms(1) wf0 show ?thesis by auto
  next
    case False
    with cs assms(3) obtain p0 where a: "a = Some p0"
      and res: "v1 = v\<lparr>m_NullTerminatedPtr := p0\<rparr>" "mem h1 (p0 + L) = 0"
      by (cases a) auto
    from a assms(2) have "p0 AND 1 = 0" by (simp add: alloc_ok_def)
    then have p1: "p0 \<noteq> 1" by auto
    from False assms(1) have known: "m_Length v \<noteq> SIZE_MAX"
      by (auto simp: wf_view_def)
    with length_view_resolved [OF assms(1) lv] have "m_Length v = L" by simp
    with res p1 known assms(1) show ?thesis
      by (simp add: wf_view_def)
  qed
qed

lemma produced_wf: "produced m v \<Longrightarrow> wf_view m v"
proof (induction rule: produced.induct)
  case (by_default m)
  show ?case by (rule wf_ctor_default)
next
  case (by_sz sz m n)
  then show ?case by (rule wf_ctor_sz)
next
  case (by_ptr_len str len m)
  then show ?case by (rule wf_ctor_ptr_len)
next
  case (by_still str len m b v)
  then show ?case by (rule wf_ctor_still)
next
  case (by_string m str offset b len v)
  then show ?case by (rule wf_ctor_string)
next
  case (by_copy m src srcLen src0 offset b len v src1)
  from by_copy.IH by_copy.hyps(2,3,4) show ?case by (rule wf_ctor_copy)
next
  case (by_copy_source m src b offset len v src1)
  from by_copy_source.IH by_copy_source.hyps(2) show ?case by (rule wf_ctor_copy_source)
next
  case (by_move m src v src1)
  then show ?case by (simp add: ctor_move_eq)
next
  case (by_move_source m src v src1)
  then show ?case by (auto simp: ctor_move_eq wf_ctor_default)
next
  case (by_copy_assign m s this src s1)
  from by_copy_assign.IH by_copy_assign.hyps(3) show ?case by (rule wf_copy_assign)
next
  case (by_move_assign m s this src s1)
  from wf_move_assign [OF by_move_assign.IH by_move_assign.hyps(3)] show ?case by simp
next
  case (by_move_assign_source m s this src s1)
  from wf_move_assign [OF by_move_assign_source.IH by_move_assign_source.hyps(3)]
  show ?case by simp
next
  case (by_length m v b n v1)
  from by_length.IH by_length.hyps(2) show ?case by (rule wf_length_view)
next
  case (by_c_str h v a b nullChar p v1 h1)
  from by_c_str.IH by_c_str.hyps(2,3) show ?case by (rule wf_c_str)
next
  case (by_substr m v thisLen v0 offset b len r v1)
  from by_substr.IH by_substr.hyps(2,3,4) show ?case by (rule wf_substr)
next
  case (by_substr_source m v b offset len r v1)
  from by_substr_source.IH by_substr_source.hyps(2) show ?case by (rule wf_substr_source)
qed

lemma tstrlen_abc: "tstrlen mem_abc 100 = Inr 3" "tstrlen mem_abc 103 = Inr 0"
  by (simp_all add: tstrlen_def mem_abc_def)

lemma produced_abc:
  "produced mem_abc (ctor_sz 100)" "produced mem_abc (ctor_ptr_len 100 3)"
  "produced mem_abc (ctor_ptr_len 100 2)"
proof -
  show "produced mem_abc (ctor_sz 100)"
    by (rule produced.by_sz [of 100 mem_abc 3]) (simp add: tstrlen_abc)
  show "produced mem_abc (ctor_ptr_len 100 3)" "produced mem_abc (ctor_ptr_len 100 2)"
    by (rule produced.by_ptr_len, simp add: valid_range_def)+
qed

lemma length_view_abc:
  "length_view b mem_abc (ctor_sz 100) = Inr (3, \<lparr>m_Length = 3, m_Begin = 100, m_NullTerminatedPtr = 1\<rparr>)"
  "length_view b mem_abc (ctor_ptr_len 100 3) = Inr (3, \<lparr>m_Length = 3, m_Begin = 100, m_NullTerminatedPtr = 0\<rparr>)"
  "length_view b mem_abc (ctor_ptr_len 100 2) = Inr (2, \<lparr>m_Length = 2, m_Begin = 100, m_NullTerminatedPtr = 0\<rparr>)"
  by (simp_all add: length_view_def ctor_sz_def ctor_ptr_len_def tstrlen_abc SIZE_MAX_def)

lemma word_gt_1: "(x :: 64 word) \<noteq> 0 \<Longrightarrow> x \<noteq> 1 \<Longrightarrow> 1 < x"
proof -
  assume "x \<noteq> 0" "x \<noteq> 1"
  then have "\<not> x < 1" by simp
  with \<open>x \<noteq> 1\<close> show "1 < x" by (simp add: not_less less_le)
qed

section \<open>Unknown length\<close>

text \<open>
  Claim C4: every view that a constructor, an assignment or a derivation produces (from
  arguments within the preconditions of the interface) with an unknown length is not in the
  state \<open>NotTerminated\<close>: it is self-terminated, and \<^verbatim>\<open>length()\<close> resolves its length by scanning
  its buffer for the terminator.
\<close>

theorem unknown_length_is_terminated:
  assumes "produced m v" and "m_Length v = SIZE_MAX"
  shows "termination_of v \<noteq> NotTerminated \<and> termination_of v = SelfTerminated \<and>
         (\<exists>n. length_view b m v = Inr (n, v\<lparr>m_Length := n\<rparr>))"
proof -
  from assms(1) have wf: "wf_view m v" by (rule produced_wf)
  with assms(2) have "m_NullTerminatedPtr v = 1" by (simp add: wf_view_def)
  then have "termination_of v = SelfTerminated" by (simp add: termination_of_def)
  with length_view_wf [OF wf, of b] show ?thesis by auto
qed

text \<open>
  Claim C4 at the view of the null-terminated string \<^verbatim>\<open>"abc"\<close>: its length is unknown, it is
  self-terminated, and \<^verbatim>\<open>length()\<close> finds 3.
\<close>

theorem unknown_length_is_terminated_witness:
  "produced mem_abc (ctor_sz 100) \<and> m_Length (ctor_sz 100) = SIZE_MAX \<and>
   termination_of (ctor_sz 100) = SelfTerminated \<and>
   length_view Debug mem_abc (ctor_sz 100) = Inr (3, (ctor_sz 100)\<lparr>m_Length := 3\<rparr>)"
proof -
  note p = produced_abc(1)
  have u: "m_Length (ctor_sz 100) = SIZE_MAX"
    by (simp add: ctor_sz_def)
  from unknown_length_is_terminated [OF p u, of Debug] p u show ?thesis
    by (simp add: length_view_def ctor_sz_def tstrlen_abc)
qed

section \<open>Null-terminated access\<close>

text \<open>
  Claim C1, as stated, at the view of the empty null-terminated string: the view is
  self-terminated and begins at address 103, and \<^verbatim>\<open>c_str()\<close> returns the static terminator at
  address 500, not \<^verbatim>\<open>m_Begin\<close>: the test for emptiness comes first.
\<close>

theorem c_str_empty_self_terminated_counterexample:
  "produced (mem heap_abc) (ctor_sz 103) \<and>
   termination_of (ctor_sz 103) = SelfTerminated \<and>
   m_Begin (ctor_sz 103) = 103 \<and>
   c_str Release 500 (Some 200) heap_abc (ctor_sz 103) = Inr (500, ctor_sz 103, heap_abc)"
proof -
  have "produced (mem heap_abc) (ctor_sz 103)"
    by (rule produced.by_sz [of 103 _ 0]) (simp add: heap_abc_def tstrlen_abc)
  moreover have "c_str Release 500 (Some 200) heap_abc (ctor_sz 103) = Inr (500, ctor_sz 103, heap_abc)"
    by (simp add: c_str_def empty_view_def ctor_sz_def heap_abc_def mem_abc_def)
  ultimately show ?thesis
    by (simp add: termination_of_def ctor_sz_def)
qed

text \<open>
  Claim C1, amended: for every view that the interface produced, \<^verbatim>\<open>c_str()\<close> (given that an
  allocation, where one is made, succeeds) returns a pointer \<open>p\<close> with the terminator at offset
  \<^verbatim>\<open>length()\<close>. If the view is empty it returns the static terminator and leaves the heap as it
  was; if the view is not empty and self-terminated it returns \<^verbatim>\<open>m_Begin\<close> and leaves the heap as
  it was. A view that is not empty and not terminated gets a newly allocated copy of
  \<^verbatim>\<open>length() + 1\<close> code units, which it then owns; a view that owns a copy returns it.
\<close>

theorem c_str_terminator:
  assumes "produced (mem h) v" and "mem h nullChar = 0" and "alloc_ok (Some p0)"
  shows "\<exists>p v1 h1 L v2.
           c_str b nullChar (Some p0) h v = Inr (p, v1, h1) \<and>
           length_view b (mem h1) v1 = Inr (L, v2) \<and>
           mem h1 (p + L) = 0 \<and>
           (empty_view b (mem h) v = Inr True \<longrightarrow> p = nullChar \<and> h1 = h) \<and>
           (empty_view b (mem h) v = Inr False \<and> termination_of v = SelfTerminated \<longrightarrow>
              p = m_Begin v \<and> h1 = h) \<and>
           (empty_view b (mem h) v = Inr False \<and> termination_of v = NotTerminated \<longrightarrow>
              p = p0 \<and> termination_of v1 = OwnedCopy p0 \<and> live h1 p0 = Some (L + 1)) \<and>
           (\<forall>q. empty_view b (mem h) v = Inr False \<and> termination_of v = OwnedCopy q \<longrightarrow>
              p = q \<and> h1 = h)"
proof -
  from assms(1) have wf: "wf_view (mem h) v" by (rule produced_wf)
  from length_view_wf [OF wf, of Release] obtain L
    where lv: "length_view Release (mem h) v = Inr (L, v\<lparr>m_Length := L\<rparr>)"
      and L: "L \<noteq> SIZE_MAX"
      and wf0: "wf_view (mem h) (v\<lparr>m_Length := L\<rparr>)"
      and res: "if m_Length v = SIZE_MAX then tstrlen (mem h) (m_Begin v) = Inr L else L = m_Length v"
    by blast
  have lvb: "length_view b (mem h) v = Inr (L, v\<lparr>m_Length := L\<rparr>)"
    using lv length_view_build [OF wf, of b] by simp
  have lv0: "length_view b m' (v'\<lparr>m_Length := L\<rparr>) = Inr (L, v'\<lparr>m_Length := L\<rparr>)"
    for m' :: "'a memory" and v'
    using L by (simp add: length_view_def)
  note cs = c_str_cases [OF wf lv assms(3), of b nullChar]
  note e = empty_view_wf [OF wf lv, of b]
  from wf_resolved_range [OF wf lv]
  have self: "m_NullTerminatedPtr v = 1 \<longrightarrow> mem h (m_Begin v + L) = 0"
    by simp
  from assms(3) have p0: "p0 \<noteq> 0" "p0 \<noteq> 1"
    by (auto simp: alloc_ok_def)
  show ?thesis
  proof (cases "L = 0")
    case True
    with cs e lvb assms(2) show ?thesis by simp
  next
    case nonempty: False
    show ?thesis
    proof (cases "m_NullTerminatedPtr v = 1")
      case True
      with nonempty cs e lvb self lv0 [of "mem h" v] show ?thesis
        by (cases b) (simp_all add: termination_of_def)
    next
      case not_self: False
      with wf have known: "m_Length v \<noteq> SIZE_MAX"
        by (auto simp: wf_view_def)
      with res have Lv: "m_Length v = L" by simp
      then have lk: "length_view b m' (v\<lparr>m_NullTerminatedPtr := x\<rparr>) =
          Inr (L, v\<lparr>m_NullTerminatedPtr := x\<rparr>)" for m' :: "'a memory" and x
        using L by (simp add: length_view_def)
      show ?thesis
      proof (cases "m_NullTerminatedPtr v = 0")
        case True
        with nonempty cs e lk p0 show ?thesis
          by (simp add: termination_of_def)
      next
        case False
        with not_self have "1 < m_NullTerminatedPtr v" by (simp add: word_gt_1)
        with wf known Lv have "mem h (m_NullTerminatedPtr v + L) = 0"
          by (simp add: wf_view_def)
        with False not_self nonempty cs e lvb Lv known show ?thesis
          by (simp add: termination_of_def length_view_def)
      qed
    qed
  qed
qed

text \<open>
  Claim C1, the amended statement at the view of \<^verbatim>\<open>"ab"\<close> given by pointer and length: a debug
  build copies \<^verbatim>\<open>"ab"\<close> into the block at 200 and terminates it.
\<close>

theorem c_str_terminator_witness:
  "produced (mem heap_abc) (ctor_ptr_len 100 2) \<and> mem heap_abc 500 = 0 \<and> alloc_ok (Some 200) \<and>
   (case c_str Debug 500 (Some 200) heap_abc (ctor_ptr_len 100 2) of
      Inl e \<Rightarrow> False
    | Inr (p, v1, h1) \<Rightarrow>
        p = 200 \<and> v1 = \<lparr>m_Length = 2, m_Begin = 100, m_NullTerminatedPtr = 200\<rparr> \<and>
        mem h1 200 = 97 \<and> mem h1 201 = 98 \<and> mem h1 (200 + 2) = 0 \<and> live h1 200 = Some 3)"
proof -
  have p: "produced (mem heap_abc) (ctor_ptr_len 100 2)"
    by (rule produced.by_ptr_len) (simp add: valid_range_def)
  have z: "mem heap_abc 500 = 0"
    by (simp add: heap_abc_def mem_abc_def)
  have a: "alloc_ok (Some 200)"
    by (simp add: alloc_ok_def)
  have e: "empty_view Debug (mem heap_abc) (ctor_ptr_len 100 2) = Inr False"
    "termination_of (ctor_ptr_len 100 2) = NotTerminated"
    by (simp_all add: empty_view_def ctor_ptr_len_def SIZE_MAX_def termination_of_def)
  from c_str_terminator [OF p z a, of Debug] e
  obtain v1 h1 L v2 where r: "c_str Debug 500 (Some 200) heap_abc (ctor_ptr_len 100 2) = Inr (200, v1, h1)"
    "length_view Debug (mem h1) v1 = Inr (L, v2)" "mem h1 (200 + L) = 0"
    "termination_of v1 = OwnedCopy 200" "live h1 200 = Some (L + 1)"
    by auto
  have "c_str Debug 500 (Some 200) heap_abc (ctor_ptr_len 100 2) =
      Inr (200, \<lparr>m_Length = 2, m_Begin = 100, m_NullTerminatedPtr = 200\<rparr>,
           heap_abc\<lparr>live := (live heap_abc)(200 \<mapsto> 3),
                    mem := (\<lambda>x. if x - 200 < 2 then mem_abc (100 + (x - 200)) else mem_abc x)
                             (202 := 0)\<rparr>)"
    by (simp add: c_str_def empty_view_def ctor_ptr_len_def SIZE_MAX_def new_arr_def memcpy_def
        compare_exchange_strong_def heap_abc_def cong: if_cong)
  with r p z a show ?thesis
    by (auto simp: length_view_def SIZE_MAX_def mem_abc_def)
qed

section \<open>Equality\<close>

lemma ranges_equal_nat:
  "ranges_equal m p q k \<longleftrightarrow> (\<forall>j < k. m (p + of_nat j) = m (q + of_nat j))"
proof (induction k arbitrary: p q)
  case 0
  show ?case by simp
next
  case (Suc k)
  have "(\<forall>j < Suc k. m (p + of_nat j) = m (q + of_nat j)) \<longleftrightarrow>
        m p = m q \<and> (\<forall>j < k. m (p + of_nat (Suc j)) = m (q + of_nat (Suc j)))"
    by (auto simp: less_Suc_eq_0_disj)
  also have "\<dots> \<longleftrightarrow> m p = m q \<and> (\<forall>j < k. m (p + 1 + of_nat j) = m (q + 1 + of_nat j))"
    by (simp add: add.assoc)
  finally show ?case using Suc.IH [of "p + 1" "q + 1"] by simp
qed

lemma ranges_equal_word:
  "ranges_equal m p q (unat (n :: 64 word)) \<longleftrightarrow> (\<forall>i. i < n \<longrightarrow> m (p + i) = m (q + i))"
proof -
  have "(\<forall>j < unat n. m (p + of_nat j) = m (q + of_nat j)) \<longleftrightarrow>
        (\<forall>i. i < n \<longrightarrow> m (p + i) = m (q + i))"
  proof (intro iffI allI impI)
    fix i assume a: "\<forall>j < unat n. m (p + of_nat j) = m (q + of_nat j)" and "i < n"
    then have "unat i < unat n" by (simp add: word_less_nat_alt)
    with a have "m (p + of_nat (unat i)) = m (q + of_nat (unat i))" by blast
    then show "m (p + i) = m (q + i)" by simp
  next
    fix j assume a: "\<forall>i. i < n \<longrightarrow> m (p + i) = m (q + i)" and j: "j < unat n"
    have "unat (of_nat j :: 64 word) = j"
      using j unat_bound64 [of n] by (simp add: unat_of_nat)
    with j have "(of_nat j :: 64 word) < n" by (simp add: word_less_nat_alt)
    with a show "m (p + of_nat j) = m (q + of_nat j)" by blast
  qed
  then show ?thesis by (simp add: ranges_equal_nat)
qed

lemma op_eq_wf:
  assumes "wf_view m x" and "wf_view m y"
    and "length_view Release m x = Inr (Lx, x1)" and "length_view Release m y = Inr (Ly, y1)"
  shows "op_eq b m x y =
           Inr (Lx = Ly \<and> (Lx \<noteq> 0 \<longrightarrow> (\<forall>i. i < Lx \<longrightarrow> m (m_Begin x + i) = m (m_Begin y + i))),
                x1, y1)"
proof -
  have lx: "length_view b m x = Inr (Lx, x1)"
    using assms(3) length_view_build [OF assms(1), of b] by simp
  have ly: "length_view b m y = Inr (Ly, y1)"
    using assms(4) length_view_build [OF assms(2), of b] by simp
  from wf_resolved_range [OF assms(1,3)] have rx: "valid_range (m_Begin x) Lx" "m_Begin x1 = m_Begin x"
    by simp_all
  from wf_resolved_range [OF assms(2,4)] have ry: "valid_range (m_Begin y) Ly" "m_Begin y1 = m_Begin y"
    by simp_all
  show ?thesis
  proof (cases "Lx = Ly \<and> Lx \<noteq> 0")
    case True
    with rx ry have "m_Begin x \<noteq> 0" "m_Begin y \<noteq> 0"
      by (auto simp: valid_range_def)
    moreover from True have pos: "0 < Lx" "0 < Ly"
      by (auto simp: word_neq_0_conv)
    ultimately show ?thesis
      using True lx ly rx(2) ry(2)
      by (auto simp: op_eq_def memcmp_is_0_def ranges_equal_word)
  next
    case False
    with lx ly show ?thesis
      by (auto simp: op_eq_def)
  qed
qed

lemma length_view_ignores_tag:
  assumes "length_view Release m x = Inr (L, x1)"
  shows "length_view Release m (x\<lparr>m_NullTerminatedPtr := t\<rparr>) = Inr (L, x1\<lparr>m_NullTerminatedPtr := t\<rparr>)"
  using assms
  by (auto simp: length_view_def split: sum.splits if_splits)

lemma op_eq_ignores_tag:
  assumes "op_eq Release m x y = Inr (r, x1, y1)"
  shows "op_eq Release m (x\<lparr>m_NullTerminatedPtr := t\<rparr>) (y\<lparr>m_NullTerminatedPtr := u\<rparr>) =
           Inr (r, x1\<lparr>m_NullTerminatedPtr := t\<rparr>, y1\<lparr>m_NullTerminatedPtr := u\<rparr>)"
proof -
  from assms obtain Lx Ly where lx: "length_view Release m x = Inr (Lx, x1)"
    and ly: "length_view Release m y = Inr (Ly, y1)"
    by (auto simp: op_eq_def split: sum.splits if_splits)
  have bx: "m_Begin x1 = m_Begin x" and "m_Begin y1 = m_Begin y"
    using lx ly by (auto simp: length_view_def split: sum.splits if_splits)
  with assms lx ly length_view_ignores_tag [OF lx, of t] length_view_ignores_tag [OF ly, of u]
  show ?thesis
    by (simp add: op_eq_def split: sum.splits if_splits)
qed

text \<open>
  Claim C8: for views \<open>x\<close> and \<open>y\<close> that the interface produced, \<^verbatim>\<open>x == y\<close> returns true exactly
  when the resolved lengths are equal and, when that length is not 0, the two ranges hold
  the same code units. The verdict of \<^verbatim>\<open>x == x\<close> is true, the verdict of \<^verbatim>\<open>y == x\<close> is that of
  \<^verbatim>\<open>x == y\<close>, and the verdict does not change when the termination tags of the operands are
  replaced by any others (a release build never reads them).
\<close>

theorem equality_content_based:
  assumes "produced m x" and "produced m y"
  shows "\<exists>Lx Ly x1 y1 r.
           length_view b m x = Inr (Lx, x1) \<and> length_view b m y = Inr (Ly, y1) \<and>
           op_eq b m x y = Inr (r, x1, y1) \<and>
           (r \<longleftrightarrow> Lx = Ly \<and> (Lx \<noteq> 0 \<longrightarrow> (\<forall>i. i < Lx \<longrightarrow> m (m_Begin x + i) = m (m_Begin y + i)))) \<and>
           op_eq b m x x = Inr (True, x1, x1) \<and>
           op_eq b m y x = Inr (r, y1, x1) \<and>
           (\<forall>t u. op_eq Release m (x\<lparr>m_NullTerminatedPtr := t\<rparr>) (y\<lparr>m_NullTerminatedPtr := u\<rparr>) =
                    Inr (r, x1\<lparr>m_NullTerminatedPtr := t\<rparr>, y1\<lparr>m_NullTerminatedPtr := u\<rparr>))"
proof -
  from assms have wx: "wf_view m x" and wy: "wf_view m y"
    by (simp_all add: produced_wf)
  from length_view_wf [OF wx, of Release] obtain Lx
    where lx: "length_view Release m x = Inr (Lx, x\<lparr>m_Length := Lx\<rparr>)" by blast
  from length_view_wf [OF wy, of Release] obtain Ly
    where ly: "length_view Release m y = Inr (Ly, y\<lparr>m_Length := Ly\<rparr>)" by blast
  define r where "r \<longleftrightarrow> Lx = Ly \<and> (Lx \<noteq> 0 \<longrightarrow> (\<forall>i. i < Lx \<longrightarrow> m (m_Begin x + i) = m (m_Begin y + i)))"
  have xy: "op_eq b' m x y = Inr (r, x\<lparr>m_Length := Lx\<rparr>, y\<lparr>m_Length := Ly\<rparr>)" for b'
    unfolding r_def by (rule op_eq_wf [OF wx wy lx ly])
  have "op_eq b m y x = Inr (Ly = Lx \<and> (Ly \<noteq> 0 \<longrightarrow> (\<forall>i. i < Ly \<longrightarrow> m (m_Begin y + i) = m (m_Begin x + i))),
      y\<lparr>m_Length := Ly\<rparr>, x\<lparr>m_Length := Lx\<rparr>)"
    by (rule op_eq_wf [OF wy wx ly lx])
  moreover have "(Ly = Lx \<and> (Ly \<noteq> 0 \<longrightarrow> (\<forall>i. i < Ly \<longrightarrow> m (m_Begin y + i) = m (m_Begin x + i)))) = r"
    unfolding r_def by auto
  ultimately have yx: "op_eq b m y x = Inr (r, y\<lparr>m_Length := Ly\<rparr>, x\<lparr>m_Length := Lx\<rparr>)"
    by simp
  have xx: "op_eq b m x x = Inr (True, x\<lparr>m_Length := Lx\<rparr>, x\<lparr>m_Length := Lx\<rparr>)"
    using op_eq_wf [OF wx wx lx lx, of b] by simp
  have lxb: "length_view b m x = Inr (Lx, x\<lparr>m_Length := Lx\<rparr>)"
    using lx length_view_build [OF wx, of b] by simp
  have lyb: "length_view b m y = Inr (Ly, y\<lparr>m_Length := Ly\<rparr>)"
    using ly length_view_build [OF wy, of b] by simp
  have tag: "\<forall>t u. op_eq Release m (x\<lparr>m_NullTerminatedPtr := t\<rparr>) (y\<lparr>m_NullTerminatedPtr := u\<rparr>) =
      Inr (r, x\<lparr>m_Length := Lx, m_NullTerminatedPtr := t\<rparr>, y\<lparr>m_Length := Ly, m_NullTerminatedPtr := u\<rparr>)"
    using op_eq_ignores_tag [OF xy [of Release]] by simp
  have rr: "r \<longleftrightarrow> Lx = Ly \<and> (Lx \<noteq> 0 \<longrightarrow> (\<forall>i. i < Lx \<longrightarrow> m (m_Begin x + i) = m (m_Begin y + i)))"
    by (simp add: r_def)
  show ?thesis
  proof (intro exI conjI)
    show "length_view b m x = Inr (Lx, x\<lparr>m_Length := Lx\<rparr>)" by (fact lxb)
    show "length_view b m y = Inr (Ly, y\<lparr>m_Length := Ly\<rparr>)" by (fact lyb)
    show "op_eq b m x y = Inr (r, x\<lparr>m_Length := Lx\<rparr>, y\<lparr>m_Length := Ly\<rparr>)" by (fact xy)
    show "r \<longleftrightarrow> Lx = Ly \<and> (Lx \<noteq> 0 \<longrightarrow> (\<forall>i. i < Lx \<longrightarrow> m (m_Begin x + i) = m (m_Begin y + i)))"
      by (fact rr)
    show "op_eq b m x x = Inr (True, x\<lparr>m_Length := Lx\<rparr>, x\<lparr>m_Length := Lx\<rparr>)" by (fact xx)
    show "op_eq b m y x = Inr (r, y\<lparr>m_Length := Ly\<rparr>, x\<lparr>m_Length := Lx\<rparr>)" by (fact yx)
    show "\<forall>t u. op_eq Release m (x\<lparr>m_NullTerminatedPtr := t\<rparr>) (y\<lparr>m_NullTerminatedPtr := u\<rparr>) =
      Inr (r, x\<lparr>m_Length := Lx, m_NullTerminatedPtr := t\<rparr>, y\<lparr>m_Length := Ly, m_NullTerminatedPtr := u\<rparr>)"
      by (fact tag)
  qed
qed

text \<open>
  Claim C8 at \<^verbatim>\<open>View("abc") == View("abc", 3)\<close>, which is true, at
  \<^verbatim>\<open>View("abc") == View("ab", 2)\<close>, which is false, and at \<^verbatim>\<open>View("") == View()\<close>, two empty
  views, which is true.
\<close>

theorem equality_content_based_witness:
  "produced mem_abc (ctor_sz 100) \<and> produced mem_abc (ctor_ptr_len 100 3) \<and>
   produced mem_abc (ctor_ptr_len 100 2) \<and> produced mem_abc (ctor_sz 103) \<and>
   produced mem_abc ctor_default \<and>
   op_eq Debug mem_abc (ctor_sz 100) (ctor_ptr_len 100 3) =
     Inr (True, \<lparr>m_Length = 3, m_Begin = 100, m_NullTerminatedPtr = 1\<rparr>,
          \<lparr>m_Length = 3, m_Begin = 100, m_NullTerminatedPtr = 0\<rparr>) \<and>
   op_eq Debug mem_abc (ctor_sz 100) (ctor_ptr_len 100 2) =
     Inr (False, \<lparr>m_Length = 3, m_Begin = 100, m_NullTerminatedPtr = 1\<rparr>,
          \<lparr>m_Length = 2, m_Begin = 100, m_NullTerminatedPtr = 0\<rparr>) \<and>
   op_eq Debug mem_abc (ctor_sz 103) ctor_default =
     Inr (True, \<lparr>m_Length = 0, m_Begin = 103, m_NullTerminatedPtr = 1\<rparr>, ctor_default)"
proof -
  have b: "m_Begin (ctor_sz 100) = 100" "m_Begin (ctor_ptr_len 100 3) = 100"
    by (simp_all add: ctor_sz_def ctor_ptr_len_def)
  have e: "produced mem_abc (ctor_sz 103)" "produced mem_abc ctor_default"
    by (rule produced.by_sz [of 103 mem_abc 0], simp add: tstrlen_abc) (rule produced.by_default)
  have le: "length_view Debug mem_abc (ctor_sz 103) =
      Inr (0, \<lparr>m_Length = 0, m_Begin = 103, m_NullTerminatedPtr = 1\<rparr>)"
    "length_view Debug mem_abc ctor_default = Inr (0, ctor_default)"
    by (simp_all add: length_view_def ctor_sz_def ctor_default_def tstrlen_abc SIZE_MAX_def)
  from equality_content_based [OF produced_abc(1) produced_abc(2), of Debug]
  have abc: "op_eq Debug mem_abc (ctor_sz 100) (ctor_ptr_len 100 3) =
     Inr (True, \<lparr>m_Length = 3, m_Begin = 100, m_NullTerminatedPtr = 1\<rparr>,
          \<lparr>m_Length = 3, m_Begin = 100, m_NullTerminatedPtr = 0\<rparr>)"
    by (auto simp: length_view_abc b)
  from equality_content_based [OF produced_abc(1) produced_abc(3), of Debug]
  have ab: "op_eq Debug mem_abc (ctor_sz 100) (ctor_ptr_len 100 2) =
     Inr (False, \<lparr>m_Length = 3, m_Begin = 100, m_NullTerminatedPtr = 1\<rparr>,
          \<lparr>m_Length = 2, m_Begin = 100, m_NullTerminatedPtr = 0\<rparr>)"
    by (auto simp: length_view_abc)
  from equality_content_based [OF e, of Debug]
  have empty: "op_eq Debug mem_abc (ctor_sz 103) ctor_default =
     Inr (True, \<lparr>m_Length = 0, m_Begin = 103, m_NullTerminatedPtr = 1\<rparr>, ctor_default)"
    by (auto simp: le)
  from produced_abc e abc ab empty show ?thesis by simp
qed

section \<open>Moving\<close>

lemma termination_of_OwnedCopy:
  "termination_of v = OwnedCopy p \<longleftrightarrow> m_NullTerminatedPtr v = p \<and> 1 < p"
proof -
  have "1 < p \<longleftrightarrow> p \<noteq> 0 \<and> p \<noteq> 1"
    using word_gt_1 [of p] by auto
  then show ?thesis by (auto simp: termination_of_def)
qed

lemma dtor_ctor_default: "dtor h ctor_default = Inr h"
  by (simp add: dtor_def ctor_default_def)

lemma dtor_owned:
  "termination_of v = OwnedCopy p \<Longrightarrow> live h p = Some n \<Longrightarrow>
   dtor h v = Inr (h\<lparr>live := (live h)(p := None)\<rparr>)"
  by (simp add: termination_of_OwnedCopy dtor_def delete_arr_def)

lemma move_assign_free_store:
  assumes "move_assign s this src = Inr s1" and "src \<noteq> this"
  shows "mem (free_store s1) = mem (free_store s) \<and>
         live (free_store s1) =
           (\<lambda>x. if termination_of (objects s this) = OwnedCopy x then None
                else live (free_store s) x)"
proof (cases "1 < m_NullTerminatedPtr (objects s this)")
  case True
  then have own: "\<And>x. termination_of (objects s this) = OwnedCopy x \<longleftrightarrow>
      x = m_NullTerminatedPtr (objects s this)"
    by (auto simp: termination_of_OwnedCopy)
  from assms True show ?thesis
    unfolding own
    by (auto simp: move_assign_def Let_def exchange_def delete_arr_def fun_eq_iff
        split: option.splits)
next
  case False
  then have own: "\<And>x. termination_of (objects s this) \<noteq> OwnedCopy x"
    by (auto simp: termination_of_OwnedCopy)
  from assms False show ?thesis
    by (auto simp: move_assign_def Let_def exchange_def own)
qed

text \<open>
  Claim C9, as stated, at the move assignment of object 1 to itself: the operator returns the
  state unchanged, so the moved-from view keeps its length 3, its pointer and its owned copy.
\<close>

theorem self_move_counterexample:
  "move_assign state_abc 1 1 = Inr state_abc \<and>
   objects state_abc 1 = \<lparr>m_Length = 3, m_Begin = 100, m_NullTerminatedPtr = 200\<rparr> \<and>
   length_view Release mem_abc (objects state_abc 1) =
     Inr (3, \<lparr>m_Length = 3, m_Begin = 100, m_NullTerminatedPtr = 200\<rparr>)"
  by (simp add: move_assign_def state_abc_def length_view_def SIZE_MAX_def)

text \<open>
  Claim C9, amended: moving a view into a different object (move construction, or move
  assignment to a destination other than the source, whose own copy, if it has one, is an
  allocated block) leaves the source in the empty state (\<^verbatim>\<open>length()\<close> is 0, \<^verbatim>\<open>m_Begin\<close> is null,
  not terminated) and gives the destination exactly the source's pointer, length and tag.
  The move assignment leaves the memory as it was and releases the destination's former copy
  and no other block. So a copy that the source owned, allocated before the move and not also
  the destination's, is still allocated after it; the destructor of the destination then
  releases it, the destructor of the moved-from source releases nothing, and the block is no
  longer there to release a second time. The conjuncts on an arbitrary heap \<open>h\<close> say the same
  of the two views that the move constructor returns.
\<close>

theorem move_leaves_source_empty:
  assumes "src \<noteq> this"
    and "\<forall>q. termination_of (objects s this) = OwnedCopy q \<longrightarrow> live (free_store s) q \<noteq> None"
  shows "\<exists>s1. move_assign s this src = Inr s1 \<and>
           objects s1 this = objects s src \<and>
           objects s1 src = ctor_default \<and>
           ctor_move (objects s src) = (objects s src, ctor_default) \<and>
           length_view b m ctor_default = Inr (0, ctor_default) \<and>
           m_Begin ctor_default = 0 \<and>
           termination_of ctor_default = NotTerminated \<and>
           dtor (free_store s1) (objects s1 src) = Inr (free_store s1) \<and>
           (\<forall>p n. termination_of (objects s src) = OwnedCopy p \<and>
                  live (free_store s1) p = Some n \<longrightarrow>
              dtor (free_store s1) (objects s1 this) =
                Inr ((free_store s1)\<lparr>live := (live (free_store s1))(p := None)\<rparr>)) \<and>
           dtor h ctor_default = Inr h \<and>
           (\<forall>p n. termination_of (objects s src) = OwnedCopy p \<and> live h p = Some n \<longrightarrow>
              dtor h (objects s src) = Inr (h\<lparr>live := (live h)(p := None)\<rparr>)) \<and>
           mem (free_store s1) = mem (free_store s) \<and>
           live (free_store s1) =
             (\<lambda>x. if termination_of (objects s this) = OwnedCopy x then None
                  else live (free_store s) x) \<and>
           (\<forall>p n. termination_of (objects s src) = OwnedCopy p \<and>
                  live (free_store s) p = Some n \<and>
                  termination_of (objects s this) \<noteq> OwnedCopy p \<longrightarrow>
              live (free_store s1) p = Some n \<and>
              (\<exists>h1. dtor (free_store s1) (objects s1 this) = Inr h1 \<and>
                    h1 = (free_store s)\<lparr>live :=
                      (\<lambda>x. if x = p \<or> termination_of (objects s this) = OwnedCopy x then None
                           else live (free_store s) x)\<rparr> \<and>
                    dtor h1 (objects s1 src) = Inr h1 \<and>
                    delete_arr h1 p = Inl InvalidFree))"
proof -
  have "\<exists>hp. (if 1 < m_NullTerminatedPtr (objects s this)
              then delete_arr (free_store s) (m_NullTerminatedPtr (objects s this))
              else Inr (free_store s)) = Inr hp"
    using assms(2) by (auto simp: termination_of_OwnedCopy delete_arr_def)
  then obtain s1 where s1: "move_assign s this src = Inr s1"
    using assms(1) by (auto simp: move_assign_def Let_def exchange_def)
  from move_assign_objects [OF s1 assms(1)]
  have ob: "objects s1 this = objects s src" "objects s1 src = ctor_default"
    by simp_all
  have lv: "length_view b m ctor_default = Inr (0, ctor_default)"
    by (simp add: length_view_def ctor_default_def)
  have cd: "m_Begin ctor_default = 0" "termination_of ctor_default = NotTerminated"
    by (simp_all add: ctor_default_def termination_of_def)
  note fr = move_assign_free_store [OF s1 assms(1)]
  have once: "live (free_store s1) p = Some n \<and>
      (\<exists>h1. dtor (free_store s1) (objects s1 this) = Inr h1 \<and>
            h1 = (free_store s)\<lparr>live :=
              (\<lambda>x. if x = p \<or> termination_of (objects s this) = OwnedCopy x then None
                   else live (free_store s) x)\<rparr> \<and>
            dtor h1 (objects s1 src) = Inr h1 \<and>
            delete_arr h1 p = Inl InvalidFree)"
    if p: "termination_of (objects s src) = OwnedCopy p" "live (free_store s) p = Some n"
      "termination_of (objects s this) \<noteq> OwnedCopy p" for p n
  proof -
    have l1: "live (free_store s1) p = Some n"
      using fr p(2,3) by simp
    have d: "dtor (free_store s1) (objects s1 this) =
        Inr ((free_store s1)\<lparr>live := (live (free_store s1))(p := None)\<rparr>)"
      using dtor_owned [of "objects s src" p "free_store s1" n] p(1) l1 ob(1) by simp
    have e: "(free_store s1)\<lparr>live := (live (free_store s1))(p := None)\<rparr> =
        (free_store s)\<lparr>live :=
              (\<lambda>x. if x = p \<or> termination_of (objects s this) = OwnedCopy x then None
                   else live (free_store s) x)\<rparr>"
      using fr by (auto simp: fun_eq_iff intro!: heap.equality)
    show ?thesis
      using l1 d e ob(2) by (simp add: dtor_ctor_default delete_arr_def)
  qed
  have a: "dtor (free_store s1) (objects s1 src) = Inr (free_store s1)"
    using ob(2) by (simp add: dtor_ctor_default)
  have b1: "\<forall>p n. termination_of (objects s src) = OwnedCopy p \<and>
                  live (free_store s1) p = Some n \<longrightarrow>
              dtor (free_store s1) (objects s1 this) =
                Inr ((free_store s1)\<lparr>live := (live (free_store s1))(p := None)\<rparr>)"
    using dtor_owned [of "objects s src" _ "free_store s1"] ob(1) by auto
  have b2: "\<forall>p n. termination_of (objects s src) = OwnedCopy p \<and> live h p = Some n \<longrightarrow>
              dtor h (objects s src) = Inr (h\<lparr>live := (live h)(p := None)\<rparr>)"
    using dtor_owned [of "objects s src" _ h] by auto
  show ?thesis
  proof (intro exI conjI)
    show "move_assign s this src = Inr s1" by (fact s1)
    show "objects s1 this = objects s src" by (fact ob(1))
    show "objects s1 src = ctor_default" by (fact ob(2))
    show "ctor_move (objects s src) = (objects s src, ctor_default)" by (fact ctor_move_eq)
    show "length_view b m ctor_default = Inr (0, ctor_default)" by (fact lv)
    show "m_Begin ctor_default = 0" by (fact cd(1))
    show "termination_of ctor_default = NotTerminated" by (fact cd(2))
    show "dtor (free_store s1) (objects s1 src) = Inr (free_store s1)" by (fact a)
    show "\<forall>p n. termination_of (objects s src) = OwnedCopy p \<and>
                  live (free_store s1) p = Some n \<longrightarrow>
              dtor (free_store s1) (objects s1 this) =
                Inr ((free_store s1)\<lparr>live := (live (free_store s1))(p := None)\<rparr>)" by (fact b1)
    show "dtor h ctor_default = Inr h" by (fact dtor_ctor_default)
    show "\<forall>p n. termination_of (objects s src) = OwnedCopy p \<and> live h p = Some n \<longrightarrow>
              dtor h (objects s src) = Inr (h\<lparr>live := (live h)(p := None)\<rparr>)" by (fact b2)
    show "mem (free_store s1) = mem (free_store s)" using fr by simp
    show "live (free_store s1) =
             (\<lambda>x. if termination_of (objects s this) = OwnedCopy x then None
                  else live (free_store s) x)" using fr by simp
    show "\<forall>p n. termination_of (objects s src) = OwnedCopy p \<and>
                  live (free_store s) p = Some n \<and>
                  termination_of (objects s this) \<noteq> OwnedCopy p \<longrightarrow>
              live (free_store s1) p = Some n \<and>
              (\<exists>h1. dtor (free_store s1) (objects s1 this) = Inr h1 \<and>
                    h1 = (free_store s)\<lparr>live :=
                      (\<lambda>x. if x = p \<or> termination_of (objects s this) = OwnedCopy x then None
                           else live (free_store s) x)\<rparr> \<and>
                    dtor h1 (objects s1 src) = Inr h1 \<and>
                    delete_arr h1 p = Inl InvalidFree)"
      using once by blast
  qed
qed

text \<open>
  Claim C9, the amended statement at the move assignment of object 1, which owns the block
  at 200, to the empty object 0: the block is allocated after the move, the destructor of the
  destination releases it, and the destructor of the source finds nothing to release.
\<close>

theorem move_leaves_source_empty_witness:
  "(1 :: nat) \<noteq> 0 \<and>
   move_assign state_abc 0 1 =
     Inr (state_abc\<lparr>objects := (objects state_abc)(0 := objects state_abc 1, 1 := ctor_default)\<rparr>) \<and>
   termination_of (objects state_abc 1) = OwnedCopy 200 \<and>
   live (free_store state_abc) 200 = Some 4 \<and>
   dtor (free_store state_abc) (objects state_abc 1) =
     Inr ((free_store state_abc)\<lparr>live := (live (free_store state_abc))(200 := None)\<rparr>) \<and>
   dtor (free_store state_abc) ctor_default = Inr (free_store state_abc) \<and>
   termination_of (objects state_abc 0) = NotTerminated \<and>
   free_store (state_abc\<lparr>objects :=
     (objects state_abc)(0 := objects state_abc 1, 1 := ctor_default)\<rparr>) = free_store state_abc \<and>
   dtor ((free_store state_abc)\<lparr>live := (live (free_store state_abc))(200 := None)\<rparr>)
     ctor_default =
     Inr ((free_store state_abc)\<lparr>live := (live (free_store state_abc))(200 := None)\<rparr>) \<and>
   delete_arr ((free_store state_abc)\<lparr>live := (live (free_store state_abc))(200 := None)\<rparr>) 200 =
     Inl InvalidFree"
proof -
  have ne: "(1 :: nat) \<noteq> 0" by simp
  have nt: "termination_of (objects state_abc 0) = NotTerminated"
    by (simp add: state_abc_def ctor_default_def termination_of_def)
  then have t0: "\<forall>q. termination_of (objects state_abc 0) = OwnedCopy q \<longrightarrow>
      live (free_store state_abc) q \<noteq> None"
    by simp
  have own: "termination_of (objects state_abc 1) = OwnedCopy 200"
    "live (free_store state_abc) 200 = Some 4"
    by (simp_all add: state_abc_def termination_of_def)
  have mv: "move_assign state_abc 0 1 =
     Inr (state_abc\<lparr>objects := (objects state_abc)(0 := objects state_abc 1, 1 := ctor_default)\<rparr>)"
    by (simp add: move_assign_def state_abc_def Let_def exchange_def ctor_default_def)
  have e: "(\<lambda>x. if x = 200 \<or> termination_of (objects state_abc 0) = OwnedCopy x then None
                else live (free_store state_abc) x) = (live (free_store state_abc))(200 := None)"
    by (simp add: nt fun_eq_iff)
  from move_leaves_source_empty [OF ne t0, of Release mem_abc "free_store state_abc"]
  obtain s1 where s1: "move_assign state_abc 0 1 = Inr s1"
    and a: "dtor (free_store state_abc) ctor_default = Inr (free_store state_abc)"
    and b: "\<forall>p n. termination_of (objects state_abc 1) = OwnedCopy p \<and>
              live (free_store state_abc) p = Some n \<longrightarrow>
            dtor (free_store state_abc) (objects state_abc 1) =
              Inr ((free_store state_abc)\<lparr>live := (live (free_store state_abc))(p := None)\<rparr>)"
    and f: "live (free_store s1) =
             (\<lambda>x. if termination_of (objects state_abc 0) = OwnedCopy x then None
                  else live (free_store state_abc) x)"
      "mem (free_store s1) = mem (free_store state_abc)"
    and c: "\<forall>p n. termination_of (objects state_abc 1) = OwnedCopy p \<and>
                  live (free_store state_abc) p = Some n \<and>
                  termination_of (objects state_abc 0) \<noteq> OwnedCopy p \<longrightarrow>
              live (free_store s1) p = Some n \<and>
              (\<exists>h1. dtor (free_store s1) (objects s1 0) = Inr h1 \<and>
                    h1 = (free_store state_abc)\<lparr>live :=
                      (\<lambda>x. if x = p \<or> termination_of (objects state_abc 0) = OwnedCopy x then None
                           else live (free_store state_abc) x)\<rparr> \<and>
                    dtor h1 (objects s1 1) = Inr h1 \<and>
                    delete_arr h1 p = Inl InvalidFree)"
      and o: "objects s1 1 = ctor_default"
    by (elim exE conjE)
  from s1 mv have s1_eq: "s1 =
      state_abc\<lparr>objects := (objects state_abc)(0 := objects state_abc 1, 1 := ctor_default)\<rparr>"
    by simp
  from f nt have fs: "free_store s1 = free_store state_abc"
    by (auto intro!: heap.equality)
  from b own have d1: "dtor (free_store state_abc) (objects state_abc 1) =
     Inr ((free_store state_abc)\<lparr>live := (live (free_store state_abc))(200 := None)\<rparr>)"
    by blast
  from c own nt have "dtor ((free_store state_abc)\<lparr>live :=
                      (\<lambda>x. if x = 200 \<or> termination_of (objects state_abc 0) = OwnedCopy x then None
                           else live (free_store state_abc) x)\<rparr>) (objects s1 1) =
        Inr ((free_store state_abc)\<lparr>live :=
                      (\<lambda>x. if x = 200 \<or> termination_of (objects state_abc 0) = OwnedCopy x then None
                           else live (free_store state_abc) x)\<rparr>) \<and>
      delete_arr ((free_store state_abc)\<lparr>live :=
                      (\<lambda>x. if x = 200 \<or> termination_of (objects state_abc 0) = OwnedCopy x then None
                           else live (free_store state_abc) x)\<rparr>) 200 = Inl InvalidFree"
    by auto
  then have d2: "dtor ((free_store state_abc)\<lparr>live := (live (free_store state_abc))(200 := None)\<rparr>)
       ctor_default =
      Inr ((free_store state_abc)\<lparr>live := (live (free_store state_abc))(200 := None)\<rparr>)"
    "delete_arr ((free_store state_abc)\<lparr>live := (live (free_store state_abc))(200 := None)\<rparr>) 200 =
      Inl InvalidFree"
    unfolding e o by simp_all
  from fs s1_eq have fs': "free_store (state_abc\<lparr>objects :=
     (objects state_abc)(0 := objects state_abc 1, 1 := ctor_default)\<rparr>) = free_store state_abc"
    by simp
  show ?thesis
    using ne mv own d1 a nt fs' d2 by (intro conjI)
qed

section \<open>Slices\<close>

lemma unat_min: "unat (min a b) = min (unat a) (unat (b :: 64 word))"
  by (simp add: min_def word_le_nat_alt)

lemma offsets_add:
  fixes o1 o2 L :: "64 word"
  assumes "o1 \<le> L" and "o2 \<le> L - o1"
  shows "o1 + o2 \<le> L" and "L - (o1 + o2) = L - o1 - o2"
proof -
  have a: "unat o1 \<le> unat L" using assms(1) by (simp add: word_le_nat_alt)
  have "unat o2 \<le> unat (L - o1)" using assms(2) by (simp add: word_le_nat_alt)
  then have b: "unat o2 \<le> unat L - unat o1" using assms(1) by (simp add: unat_sub)
  have "unat o1 + unat o2 < 2 ^ 64" using a b unat_bound64 [of L] by linarith
  then have "unat (o1 + o2) = unat o1 + unat o2" using unat_add_lem [of o1 o2] by simp
  with a b show "o1 + o2 \<le> L" by (simp add: word_le_nat_alt)
  show "L - (o1 + o2) = L - o1 - o2" by simp
qed

lemma min_diff:
  fixes l1 X o2 :: "64 word"
  assumes "o2 \<le> min l1 X"
  shows "min l1 X - o2 = min (l1 - o2) (X - o2)"
proof -
  from assms have a: "o2 \<le> l1" "o2 \<le> X" by simp_all
  then have u: "unat o2 \<le> unat l1" "unat o2 \<le> unat X" by (simp_all add: word_le_nat_alt)
  have "unat (min l1 X - o2) = min (unat l1) (unat X) - unat o2"
    using assms by (simp add: unat_sub unat_min)
  also have "\<dots> = min (unat l1 - unat o2) (unat X - unat o2)" using u by linarith
  also have "\<dots> = unat (min (l1 - o2) (X - o2))"
    using a by (simp add: unat_min unat_sub)
  finally show ?thesis by (simp add: word_unat_eq_iff)
qed

lemma combined_clamp:
  fixes l1 l2 X o2 :: "64 word"
  assumes "o2 \<le> min l1 X"
  shows "min l2 (min l1 X - o2) = min (if l1 = SIZE_MAX then l2 else min l2 (l1 - o2)) (X - o2)"
proof (cases "l1 = SIZE_MAX")
  case True
  then have "X \<le> l1" by (simp add: SIZE_MAX_def)
  then have "min l1 X = X" by (rule min_absorb2)
  with True show ?thesis by simp
next
  case False
  with min_diff [OF assms] show ?thesis by (simp add: min.assoc)
qed

lemma combined_not_SIZE_MAX:
  fixes l1 l2 o2 :: "64 word"
  assumes "l1 \<noteq> SIZE_MAX" and "o2 \<le> l1"
  shows "min l2 (l1 - o2) \<noteq> SIZE_MAX"
proof
  assume "min l2 (l1 - o2) = SIZE_MAX"
  then have "unat (min l2 (l1 - o2)) = 2 ^ 64 - 1" by (simp add: SIZE_MAX_unat)
  then have "2 ^ 64 - 1 \<le> unat (l1 - o2)" by (simp add: unat_min)
  then have "2 ^ 64 - 1 \<le> unat l1" using assms(2) by (simp add: unat_sub)
  with unat_bound64 [of l1] have "unat l1 = unat SIZE_MAX" by (simp add: SIZE_MAX_unat)
  with assms(1) show False by (simp add: word_unat_eq_iff)
qed

lemma reaches_end_iff:
  fixes n1 n2 X o2 :: "64 word"
  assumes "o2 \<le> n1" and "n1 \<le> X" and "n2 \<le> n1 - o2"
  shows "n1 = X \<and> n2 = n1 - o2 \<longleftrightarrow> n2 = X - o2"
proof -
  have u: "unat o2 \<le> unat n1" "unat n1 \<le> unat X" using assms(1,2) by (simp_all add: word_le_nat_alt)
  have "unat n2 \<le> unat n1 - unat o2" using assms(1,3) by (simp add: word_le_nat_alt unat_sub)
  moreover have "unat (X - o2) = unat X - unat o2" using u by (simp add: unat_sub word_le_nat_alt)
  moreover have "unat (n1 - o2) = unat n1 - unat o2" using assms(1) by (simp add: unat_sub)
  ultimately have "unat n1 = unat X \<and> unat n2 = unat (n1 - o2) \<longleftrightarrow> unat n2 = unat (X - o2)"
    using u by auto
  then show ?thesis by (simp add: word_unat_eq_iff)
qed

text \<open>The view that a slice by \<open>substr\<close> returns, without the source.\<close>

lemma substr_result:
  assumes "wf_view m v" and "length_view Release m v = Inr (L, v0)" and "offset \<le> L"
  shows "(case substr b m v offset len of Inl e \<Rightarrow> Inl e | Inr (r, v1) \<Rightarrow> Inr r) =
           (if m_Length v = SIZE_MAX \<and> len = SIZE_MAX then
              Inr \<lparr>m_Length = SIZE_MAX, m_Begin = m_Begin v + offset, m_NullTerminatedPtr = 1\<rparr>
            else if m_NullTerminatedPtr v = 1 \<and> min len (L - offset) = L - offset then
              (if L - offset = 0 then (if b = Debug then Inl AccessViolation else Inr ctor_default)
               else Inr \<lparr>m_Length = L - offset, m_Begin = m_Begin v + offset,
                          m_NullTerminatedPtr = 1\<rparr>)
            else Inr (ctor_ptr_len (m_Begin v + offset) (min len (L - offset))))"
proof (cases "m_Length v = SIZE_MAX \<and> len = SIZE_MAX")
  case True
  with length_view_resolved [OF assms(1,2)] have t: "tstrlen m (m_Begin v) = Inr L"
    by simp
  from True substr_unknown_unbounded [OF assms(1) _ t assms(3), of b] show ?thesis
    by simp
next
  case False
  have "substr b m v offset len =
      (if m_NullTerminatedPtr v = 1 \<and> min len (L - offset) = L - offset then
         (if min len (L - offset) = 0
          then (if b = Debug then Inl AccessViolation else Inr (ctor_default, v0))
          else Inr (\<lparr>m_Length = min len (L - offset), m_Begin = m_Begin v + offset,
                     m_NullTerminatedPtr = 1\<rparr>, v0))
       else Inr (ctor_ptr_len (m_Begin v + offset) (min len (L - offset)), v0))"
    using substr_resolved [OF assms False, of b] by (simp add: Let_def)
  then show ?thesis
    by (simp only: if_not_P [OF False]) (auto split: if_splits)
qed

lemma length_view_known:
  "m_Length v \<noteq> SIZE_MAX \<Longrightarrow> length_view b m v = Inr (m_Length v, v)"
  by (simp add: length_view_def)

lemma substr_twice_outcome:
  assumes wf: "wf_view m v" and len: "length_view Release m v = Inr (L, v0)"
    and o1: "o1 \<le> L" and o2: "o2 \<le> min l1 (L - o1)"
  shows "(case substr b m v o1 l1 of
            Inl e \<Rightarrow> Inl e
          | Inr (r1, v1) \<Rightarrow>
              (case substr b m r1 o2 l2 of Inl e \<Rightarrow> Inl e | Inr (r2, r1') \<Rightarrow> Inr r2)) =
         (case substr b m v (o1 + o2) (if l1 = SIZE_MAX then l2 else min l2 (l1 - o2)) of
            Inl e \<Rightarrow> Inl e
          | Inr (r, v2) \<Rightarrow> Inr r)"
    (is "?composite = ?single")
proof -
  define comb where "comb = (if l1 = SIZE_MAX then l2 else min l2 (l1 - o2))"
  define X where "X = L - o1"
  define n1 where "n1 = min l1 X"
  define n2 where "n2 = min l2 (n1 - o2)"
  define p where "p = m_Begin v"
  have o2X: "o2 \<le> X" and o2n1: "o2 \<le> n1" and o2l1: "o2 \<le> l1"
    using o2 by (simp_all add: X_def n1_def)
  from offsets_add [OF o1 o2X [unfolded X_def]]
  have o12: "o1 + o2 \<le> L" and Ldiff: "L - (o1 + o2) = X - o2"
    by (simp_all add: X_def)
  have n2_eq: "min comb (X - o2) = n2"
    using combined_clamp [OF o2 [folded X_def], of l2] by (simp add: comb_def n2_def n1_def)
  have n1X: "n1 \<le> X" by (simp add: n1_def)
  have n2n1: "n2 \<le> n1 - o2" by (simp add: n2_def)
  from length_view_resolved [OF wf len]
  have L: "L \<noteq> SIZE_MAX"
    and res: "if m_Length v = SIZE_MAX then tstrlen m (m_Begin v) = Inr L else L = m_Length v"
    by blast+
  have n1_known: "n1 \<noteq> SIZE_MAX"
  proof
    assume "n1 = SIZE_MAX"
    then have "unat n1 = 2 ^ 64 - 1" by (simp add: SIZE_MAX_unat)
    moreover have "unat n1 \<le> unat X" using n1X by (simp add: word_le_nat_alt)
    moreover have "unat X \<le> unat L" using o1 by (simp add: X_def unat_sub)
    ultimately have "unat L = unat SIZE_MAX"
      using unat_bound64 [of L] by (simp add: SIZE_MAX_unat)
    with L show False by (simp add: word_unat_eq_iff)
  qed
  have unk_tag: "m_Length v = SIZE_MAX \<Longrightarrow> m_NullTerminatedPtr v = 1"
    using wf by (simp add: wf_view_def)
  note single = substr_result [OF wf len o12, of b comb, unfolded Ldiff, folded p_def]
  note first = substr_result [OF wf len o1, of b l1, folded X_def n1_def p_def]
  have split_first: "?composite =
      (case (case substr b m v o1 l1 of Inl e \<Rightarrow> Inl e | Inr (r, v1) \<Rightarrow> Inr r) of
         Inl e \<Rightarrow> Inl e
       | Inr r1 \<Rightarrow> (case substr b m r1 o2 l2 of Inl e \<Rightarrow> Inl e | Inr (r2, r1') \<Rightarrow> Inr r2))"
    by (auto split: sum.splits)
  have second: "(case substr b m r1 o2 l2 of Inl e \<Rightarrow> Inl e | Inr (r2, r1') \<Rightarrow> Inr r2) =
      (if m_NullTerminatedPtr r1 = 1 \<and> n2 = n1 - o2 then
         (if n1 - o2 = 0 then (if b = Debug then Inl AccessViolation else Inr ctor_default)
          else Inr \<lparr>m_Length = n1 - o2, m_Begin = m_Begin r1 + o2, m_NullTerminatedPtr = 1\<rparr>)
       else Inr (ctor_ptr_len (m_Begin r1 + o2) n2))"
    if "wf_view m r1" and "m_Length r1 = n1" for r1
  proof -
    from that(2) n1_known have k: "m_Length r1 \<noteq> SIZE_MAX" by simp
    from length_view_known [OF k, of Release m] that(2)
    have "length_view Release m r1 = Inr (n1, r1)" by simp
    from substr_result [OF that(1) this o2n1, of b l2] k show ?thesis
      by (simp add: n2_def)
  qed
  show ?thesis
  proof (cases "m_Length v = SIZE_MAX \<and> l1 = SIZE_MAX")
    case lazy: True
    define U where "U = \<lparr>m_Length = SIZE_MAX, m_Begin = p + o1, m_NullTerminatedPtr = 1\<rparr>"
    from lazy res have t: "tstrlen m p = Inr L" by (simp add: p_def)
    have wfU: "wf_view m U"
      unfolding U_def by (rule wf_slice_unknown [OF t o1])
    have lenU: "length_view Release m U = Inr (X, U\<lparr>m_Length := X\<rparr>)"
      using tstrlen_shift [OF t o1] by (simp add: length_view_def U_def X_def)
    from lazy first have r1: "(case substr b m v o1 l1 of Inl e \<Rightarrow> Inl e | Inr (r, v1) \<Rightarrow> Inr r) = Inr U"
      by (simp add: U_def)
    have c: "comb = l2" using lazy by (simp add: comb_def)
    have tag: "m_NullTerminatedPtr v = 1" using lazy unk_tag by simp
    have "?composite = (case substr b m U o2 l2 of Inl e \<Rightarrow> Inl e | Inr (r2, r1') \<Rightarrow> Inr r2)"
      by (simp only: split_first r1 sum.case)
    also have "\<dots> = ?single"
      using substr_result [OF wfU lenU o2X, of b l2] single lazy tag
      unfolding c comb_def [symmetric]
      by (simp add: U_def add.assoc)
    finally show ?thesis .
  next
    case eager: False
    have comb_known: "\<not> (m_Length v = SIZE_MAX \<and> comb = SIZE_MAX)"
    proof
      assume a: "m_Length v = SIZE_MAX \<and> comb = SIZE_MAX"
      with eager have "l1 \<noteq> SIZE_MAX" by simp
      from combined_not_SIZE_MAX [OF this o2l1, of l2] a this show False
        by (simp add: comb_def)
    qed
    have single': "?single =
        (if m_NullTerminatedPtr v = 1 \<and> n2 = X - o2 then
           (if X - o2 = 0 then (if b = Debug then Inl AccessViolation else Inr ctor_default)
            else Inr \<lparr>m_Length = X - o2, m_Begin = p + (o1 + o2), m_NullTerminatedPtr = 1\<rparr>)
         else Inr (ctor_ptr_len (p + (o1 + o2)) n2))"
      using single unfolding comb_def [symmetric] n2_eq
      by (simp only: if_not_P [OF comb_known])
    have first': "(case substr b m v o1 l1 of Inl e \<Rightarrow> Inl e | Inr (r, v1) \<Rightarrow> Inr r) =
        (if m_NullTerminatedPtr v = 1 \<and> n1 = X then
           (if X = 0 then (if b = Debug then Inl AccessViolation else Inr ctor_default)
            else Inr \<lparr>m_Length = X, m_Begin = p + o1, m_NullTerminatedPtr = 1\<rparr>)
         else Inr (ctor_ptr_len (p + o1) n1))"
      using first by (simp only: if_not_P [OF eager])
    have wf_r1: "wf_view m r1"
      if "(case substr b m v o1 l1 of Inl e \<Rightarrow> Inl e | Inr (r, v1) \<Rightarrow> Inr r) = Inr r1" for r1
    proof -
      from that obtain v1 where "substr b m v o1 l1 = Inr (r1, v1)"
        by (auto split: sum.splits)
      from wf_substr [OF wf len o1 this] show ?thesis .
    qed
    show ?thesis
    proof (cases "m_NullTerminatedPtr v = 1 \<and> n1 = X")
      case reach: True
      show ?thesis
      proof (cases "X = 0")
        case True
        with o2X have z: "o2 = 0" by simp
        with True reach have "n2 = 0" by (simp add: n2_def)
        with True z reach single' have s: "?single = (if b = Debug then Inl AccessViolation else Inr ctor_default)"
          by simp
        from True reach first' have f: "(case substr b m v o1 l1 of Inl e \<Rightarrow> Inl e | Inr (r, v1) \<Rightarrow> Inr r) =
            (if b = Debug then Inl AccessViolation else Inr ctor_default)"
          by simp
        show ?thesis
        proof (cases b)
          case Debug
          with f have f': "(case substr b m v o1 l1 of Inl e \<Rightarrow> Inl e | Inr (r, v1) \<Rightarrow> Inr r) =
              Inl AccessViolation"
            by simp
          have "?composite = Inl AccessViolation"
            by (simp only: split_first f' sum.case)
          with s Debug show ?thesis by simp
        next
          case Release
          with f have f': "(case substr b m v o1 l1 of Inl e \<Rightarrow> Inl e | Inr (r, v1) \<Rightarrow> Inr r) = Inr ctor_default"
            by simp
          have "m_Length ctor_default = n1" using True reach by (simp add: ctor_default_def)
          from second [OF wf_ctor_default this] True reach z \<open>n2 = 0\<close>
          have g: "(case substr b m ctor_default o2 l2 of Inl e \<Rightarrow> Inl e | Inr (r2, r1') \<Rightarrow> Inr r2) =
              Inr ctor_default"
            by (simp add: ctor_default_def ctor_ptr_len_def)
          have "?composite = Inr ctor_default"
            by (simp only: split_first f' sum.case g)
          with s Release show ?thesis by simp
        qed
      next
        case False
        define S where "S = \<lparr>m_Length = X, m_Begin = p + o1, m_NullTerminatedPtr = 1\<rparr>"
        from False reach first' have f: "(case substr b m v o1 l1 of Inl e \<Rightarrow> Inl e | Inr (r, v1) \<Rightarrow> Inr r) = Inr S"
          by (simp add: S_def)
        have "m_Length S = n1" using reach by (simp add: S_def)
        from second [OF wf_r1 [OF f] this] reach
        have g: "(case substr b m S o2 l2 of Inl e \<Rightarrow> Inl e | Inr (r2, r1') \<Rightarrow> Inr r2) = ?single"
          unfolding single' by (simp add: S_def add.assoc)
        show ?thesis
          by (simp only: split_first f sum.case g)
      qed
    next
      case short: False
      define P where "P = ctor_ptr_len (p + o1) n1"
      have f: "(case substr b m v o1 l1 of Inl e \<Rightarrow> Inl e | Inr (r, v1) \<Rightarrow> Inr r) = Inr P"
        unfolding P_def first' by (simp only: if_not_P [OF short])
      have mP: "m_Length P = n1" "m_NullTerminatedPtr P = 0" "n1 \<noteq> 0 \<Longrightarrow> m_Begin P = p + o1"
        by (simp_all add: P_def ctor_ptr_len_def)
      have not_end: "\<not> (m_NullTerminatedPtr v = 1 \<and> n2 = X - o2)"
        using reaches_end_iff [OF o2n1 n1X n2n1] short by blast
      have s: "?single = Inr (ctor_ptr_len (p + (o1 + o2)) n2)"
        unfolding single' by (simp only: if_not_P [OF not_end])
      have "ctor_ptr_len (m_Begin P + o2) n2 = ctor_ptr_len (p + (o1 + o2)) n2"
      proof (cases "n2 = 0")
        case True
        then show ?thesis by (simp add: ctor_ptr_len_def)
      next
        case False
        have "n1 \<noteq> 0"
        proof
          assume "n1 = 0"
          with o2n1 have "o2 = 0" by simp
          with \<open>n1 = 0\<close> False show False by (simp add: n2_def)
        qed
        with mP(3) show ?thesis by (simp add: add.assoc)
      qed
      with second [OF wf_r1 [OF f] mP(1)] mP(2) s
      have g: "(case substr b m P o2 l2 of Inl e \<Rightarrow> Inl e | Inr (r2, r1') \<Rightarrow> Inr r2) = ?single"
        by simp
      show ?thesis
        by (simp only: split_first f sum.case g)
    qed
  qed
qed

lemma resolved_length_bound:
  assumes "wf_view m v" and "length_view Release m v = Inr (L, v0)" and "offset \<le> L"
  shows "min len (L - offset) \<noteq> SIZE_MAX"
proof
  assume "min len (L - offset) = SIZE_MAX"
  then have "unat (min len (L - offset)) = 2 ^ 64 - 1" by (simp add: SIZE_MAX_unat)
  then have "2 ^ 64 - 1 \<le> unat (L - offset)" by (simp add: unat_min)
  then have "2 ^ 64 - 1 \<le> unat L" using assms(3) by (simp add: unat_sub)
  with unat_bound64 [of L] have "unat L = unat SIZE_MAX" by (simp add: SIZE_MAX_unat)
  with length_view_resolved [OF assms(1,2)] show False by (simp add: word_unat_eq_iff)
qed

text \<open>The resolved length of a slice is the requested length clamped to the remaining span.\<close>

lemma substr_length:
  assumes "wf_view m v" and "length_view Release m v = Inr (L, v0)" and "offset \<le> L"
    and "(case substr b m v offset len of Inl e \<Rightarrow> Inl e | Inr (r, v1) \<Rightarrow> Inr r) = Inr r"
  shows "length_view Release m r = Inr (min len (L - offset), r\<lparr>m_Length := min len (L - offset)\<rparr>)"
proof (cases "m_Length v = SIZE_MAX \<and> len = SIZE_MAX")
  case True
  with length_view_resolved [OF assms(1,2)] have t: "tstrlen m (m_Begin v) = Inr L"
    by simp
  from True assms(4) substr_result [OF assms(1,2,3), of b len]
  have r: "r = \<lparr>m_Length = SIZE_MAX, m_Begin = m_Begin v + offset, m_NullTerminatedPtr = 1\<rparr>"
    by simp
  have "L - offset \<le> len" using True by (simp add: SIZE_MAX_def)
  then have "min len (L - offset) = L - offset" by (rule min_absorb2)
  with tstrlen_shift [OF t assms(3)] r show ?thesis
    by (simp add: length_view_def)
next
  case False
  from assms(4) substr_result [OF assms(1,2,3), of b len]
  have "m_Length r = min len (L - offset)"
    by (simp only: if_not_P [OF False]) (auto simp: ctor_default_def ctor_ptr_len_def split: if_splits)
  with resolved_length_bound [OF assms(1,2,3), of len] show ?thesis
    by (simp add: length_view_def)
qed

lemma substr_release_total:
  assumes "wf_view m v" and "length_view Release m v = Inr (L, v0)" and "offset \<le> L"
  shows "\<exists>r. (case substr Release m v offset len of Inl e \<Rightarrow> Inl e | Inr (r, v1) \<Rightarrow> Inr r) = Inr r"
  using substr_result [OF assms, of Release len] by simp

text \<open>A slice that is not empty begins at the source's pointer plus the offset.\<close>

lemma substr_begin:
  assumes "wf_view m v" and "length_view Release m v = Inr (L, v0)" and "offset \<le> L"
    and "(case substr b m v offset len of Inl e \<Rightarrow> Inl e | Inr (r, v1) \<Rightarrow> Inr r) = Inr r"
    and "min len (L - offset) \<noteq> 0"
  shows "m_Begin r = m_Begin v + offset"
  using assms(4,5) substr_result [OF assms(1,2,3), of b len]
  by (auto simp: ctor_ptr_len_def split: if_splits)

lemma substr_returns:
  assumes "(case substr b m v offset len of Inl e \<Rightarrow> Inl e | Inr (r, v1) \<Rightarrow> Inr r) = Inr r"
  shows "\<exists>v1. substr b m v offset len = Inr (r, v1)"
  using assms by (auto split: sum.splits)

lemma substr_same_clamp_equal:
  assumes wf: "wf_view m v" and len: "length_view Release m v = Inr (L, v0)" and off: "offset \<le> L"
    and clamp: "min len' (L - offset) = min len (L - offset)"
    and r: "substr Release m v offset len = Inr (r, r0)"
  shows "\<exists>s s0 x y. substr Release m v offset len' = Inr (s, s0) \<and>
           op_eq Release m r s = Inr (True, x, y)"
proof -
  define n where "n = min len (L - offset)"
  from substr_release_total [OF wf len off, of len'] obtain s
    where s: "(case substr Release m v offset len' of Inl e \<Rightarrow> Inl e | Inr (r, v1) \<Rightarrow> Inr r) = Inr s"
    by blast
  from substr_returns [OF s] obtain s0 where s0: "substr Release m v offset len' = Inr (s, s0)"
    by blast
  from r have r': "(case substr Release m v offset len of Inl e \<Rightarrow> Inl e | Inr (r, v1) \<Rightarrow> Inr r) = Inr r"
    by simp
  have wr: "wf_view m r" by (rule wf_substr [OF wf len off r])
  have ws: "wf_view m s" by (rule wf_substr [OF wf len off s0])
  have lr: "length_view Release m r = Inr (n, r\<lparr>m_Length := n\<rparr>)"
    using substr_length [OF wf len off r'] by (simp add: n_def)
  have ls: "length_view Release m s = Inr (n, s\<lparr>m_Length := n\<rparr>)"
    using substr_length [OF wf len off s] clamp by (simp add: n_def)
  have "m_Begin r = m_Begin s" if "n \<noteq> 0"
    using substr_begin [OF wf len off r'] substr_begin [OF wf len off s] clamp that
    by (simp add: n_def)
  then have "op_eq Release m r s = Inr (True, r\<lparr>m_Length := n\<rparr>, s\<lparr>m_Length := n\<rparr>)"
    using op_eq_wf [OF wr ws lr ls, of Release] by auto
  with s0 show ?thesis by blast
qed

text \<open>
  Claim C7: for a view \<open>v\<close> that the interface produced, of resolved length \<open>L\<close>, an offset
  \<open>o1\<close> that does not exceed \<open>L\<close> and an offset \<open>o2\<close> that does not exceed the length of the first
  slice, \<^verbatim>\<open>v.substr(o1, l1).substr(o2, l2)\<close> has the outcome of the single call of \<^verbatim>\<open>substr\<close> at
  offset \<open>o1 + o2\<close> with the combined length: \<open>l2\<close> when \<open>l1\<close> is the unbounded \<^verbatim>\<open>SIZE_MAX\<close>, and
  \<open>min l2 (l1 - o2)\<close> otherwise. The two views returned are the same, field by field, and so
  is a fault. In a release build the single call returns a view, and its resolved length is
  the clamped length \<open>min l2 (min l1 (L - o1) - o2)\<close> of the composition; the single call
  with the length \<open>min l2 (l1 - o2)\<close>, whatever \<open>l1\<close> is, returns a view that \<^verbatim>\<open>operator==\<close> finds
  equal to it.
\<close>

theorem substr_composition:
  assumes "produced m v" and "length_view Release m v = Inr (L, v0)"
    and "o1 \<le> L" and "o2 \<le> min l1 (L - o1)"
  shows "(case substr b m v o1 l1 of
            Inl e \<Rightarrow> Inl e
          | Inr (r1, v1) \<Rightarrow>
              (case substr b m r1 o2 l2 of Inl e \<Rightarrow> Inl e | Inr (r2, r1') \<Rightarrow> Inr r2)) =
         (case substr b m v (o1 + o2) (if l1 = SIZE_MAX then l2 else min l2 (l1 - o2)) of
            Inl e \<Rightarrow> Inl e
          | Inr (r, v2) \<Rightarrow> Inr r) \<and>
         (\<exists>r r0 r' s s0 x y.
            substr Release m v (o1 + o2) (if l1 = SIZE_MAX then l2 else min l2 (l1 - o2)) =
              Inr (r, r0) \<and>
            length_view Release m r = Inr (min l2 (min l1 (L - o1) - o2), r') \<and>
            substr Release m v (o1 + o2) (min l2 (l1 - o2)) = Inr (s, s0) \<and>
            op_eq Release m r s = Inr (True, x, y))"
proof -
  from assms(1) have wf: "wf_view m v" by (rule produced_wf)
  have o2X: "o2 \<le> L - o1" using assms(4) by simp
  from offsets_add [OF assms(3) o2X]
  have o12: "o1 + o2 \<le> L" and Ldiff: "L - (o1 + o2) = L - o1 - o2"
    by simp_all
  define comb where "comb = (if l1 = SIZE_MAX then l2 else min l2 (l1 - o2))"
  from substr_release_total [OF wf assms(2) o12, of comb] obtain r
    where r: "(case substr Release m v (o1 + o2) comb of Inl e \<Rightarrow> Inl e | Inr (r, v2) \<Rightarrow> Inr r) = Inr r"
    by blast
  from substr_returns [OF r] obtain r0
    where r0: "substr Release m v (o1 + o2) comb = Inr (r, r0)"
    by blast
  from substr_length [OF wf assms(2) o12 r]
  have lr: "length_view Release m r =
      Inr (min l2 (min l1 (L - o1) - o2), r\<lparr>m_Length := min l2 (min l1 (L - o1) - o2)\<rparr>)"
    using combined_clamp [OF assms(4), of l2] by (simp add: comb_def Ldiff)
  have "min (min l2 (l1 - o2)) (L - (o1 + o2)) = min l2 (min l1 (L - o1) - o2)"
    using min_diff [OF assms(4)] by (simp add: Ldiff min.assoc)
  also have "\<dots> = min comb (L - (o1 + o2))"
    using combined_clamp [OF assms(4), of l2] by (simp add: comb_def Ldiff)
  finally have "min (min l2 (l1 - o2)) (L - (o1 + o2)) = min comb (L - (o1 + o2))" .
  from substr_same_clamp_equal [OF wf assms(2) o12 this r0] obtain s s0 x y
    where s: "substr Release m v (o1 + o2) (min l2 (l1 - o2)) = Inr (s, s0)"
      and eq: "op_eq Release m r s = Inr (True, x, y)"
    by blast
  from r0 lr s eq have "\<exists>r r0 r' s s0 x y.
      substr Release m v (o1 + o2) comb = Inr (r, r0) \<and>
      length_view Release m r = Inr (min l2 (min l1 (L - o1) - o2), r') \<and>
      substr Release m v (o1 + o2) (min l2 (l1 - o2)) = Inr (s, s0) \<and>
      op_eq Release m r s = Inr (True, x, y)"
    by blast
  with substr_twice_outcome [OF wf assms(2,3,4), of b l2] show ?thesis
    unfolding comb_def by (rule conjI)
qed

text \<open>
  Claim C7 at \<^verbatim>\<open>View("abc").substr(1).substr(1, 5)\<close>: the view of \<^verbatim>\<open>"c"\<close>, self-terminated.
\<close>

theorem substr_composition_witness:
  "produced mem_abc (ctor_sz 100) \<and>
   length_view Release mem_abc (ctor_sz 100) =
     Inr (3, \<lparr>m_Length = 3, m_Begin = 100, m_NullTerminatedPtr = 1\<rparr>) \<and>
   (1 :: size_t) \<le> 3 \<and> (1 :: size_t) \<le> min SIZE_MAX (3 - 1) \<and>
   (case substr Debug mem_abc (ctor_sz 100) 1 SIZE_MAX of
      Inl e \<Rightarrow> Inl e
    | Inr (r1, v1) \<Rightarrow>
        (case substr Debug mem_abc r1 1 5 of Inl e \<Rightarrow> Inl e | Inr (r2, r1') \<Rightarrow> Inr r2)) =
     Inr \<lparr>m_Length = 1, m_Begin = 102, m_NullTerminatedPtr = 1\<rparr>"
proof -
  have le: "(1 :: size_t) \<le> 3" "(1 :: size_t) \<le> min SIZE_MAX (3 - 1)"
    by (simp_all add: SIZE_MAX_def)
  have single: "substr Debug mem_abc (ctor_sz 100) (1 + 1) 5 =
      Inr (\<lparr>m_Length = 1, m_Begin = 102, m_NullTerminatedPtr = 1\<rparr>,
           \<lparr>m_Length = 3, m_Begin = 100, m_NullTerminatedPtr = 1\<rparr>)"
    by (simp add: substr_def length_view_def tstrlen_def ctor_sz_def SIZE_MAX_def ctor_still_def
        load_def mem_abc_def)
  from substr_composition [OF produced_abc(1) length_view_abc(1) le, of Debug 5] single
  have "(case substr Debug mem_abc (ctor_sz 100) 1 SIZE_MAX of
      Inl e \<Rightarrow> Inl e
    | Inr (r1, v1) \<Rightarrow>
        (case substr Debug mem_abc r1 1 5 of Inl e \<Rightarrow> Inl e | Inr (r2, r1') \<Rightarrow> Inr r2)) =
     Inr \<lparr>m_Length = 1, m_Begin = 102, m_NullTerminatedPtr = 1\<rparr>"
    by simp
  with produced_abc(1) length_view_abc(1) le show ?thesis by simp
qed

text \<open>
  Claim C3 on the code, in a debug build: the view of \<^verbatim>\<open>"abc"\<close> built with
  \<^verbatim>\<open>StillNullTerminated\<close> is accepted, its length is 3, and \<^verbatim>\<open>substr(3)\<close> returns no view. It
  calls the \<^verbatim>\<open>StillNullTerminated\<close> constructor with length 0, whose assertion reads through
  the null \<^verbatim>\<open>m_Begin\<close>. The slicing constructor returns the empty view for the same slice, and
  so does \<^verbatim>\<open>substr\<close> in a release build.
\<close>

theorem substr_at_end_debug_fault:
  "ctor_still Debug mem_abc 100 3 = Inr \<lparr>m_Length = 3, m_Begin = 100, m_NullTerminatedPtr = 1\<rparr> \<and>
   length_view Debug mem_abc \<lparr>m_Length = 3, m_Begin = 100, m_NullTerminatedPtr = 1\<rparr> =
     Inr (3, \<lparr>m_Length = 3, m_Begin = 100, m_NullTerminatedPtr = 1\<rparr>) \<and>
   substr Debug mem_abc \<lparr>m_Length = 3, m_Begin = 100, m_NullTerminatedPtr = 1\<rparr> 3 SIZE_MAX =
     Inl AccessViolation \<and>
   ctor_still Debug mem_abc (100 + 3) 0 = Inl AccessViolation \<and>
   ctor_copy Debug mem_abc \<lparr>m_Length = 3, m_Begin = 100, m_NullTerminatedPtr = 1\<rparr> 3 SIZE_MAX =
     Inr (ctor_default, \<lparr>m_Length = 3, m_Begin = 100, m_NullTerminatedPtr = 1\<rparr>) \<and>
   substr Release mem_abc \<lparr>m_Length = 3, m_Begin = 100, m_NullTerminatedPtr = 1\<rparr> 3 SIZE_MAX =
     Inr (ctor_default, \<lparr>m_Length = 3, m_Begin = 100, m_NullTerminatedPtr = 1\<rparr>)"
  by (simp add: ctor_still_def load_def mem_abc_def length_view_def substr_def ctor_copy_def
      ctor_default_def SIZE_MAX_def)

text \<open>
  Everywhere else the slicing rule holds: a slice of a view of unknown length with an
  unbounded requested length has unknown length and is self-terminated, and the source is
  returned as it was; any other slice has the clamped length, is self-terminated only if it
  reaches the end of a self-terminated source, and owns no copy. The slicing constructor and
  \<^verbatim>\<open>substr\<close> in a release build return the same view; \<^verbatim>\<open>substr\<close> in a debug build returns it too,
  except for the empty slice at the end of a self-terminated source.
\<close>

lemma slice_rule:
  assumes "produced m v" and "length_view Release m v = Inr (L, v0)" and "offset \<le> L"
  shows "if m_Length v = SIZE_MAX \<and> len = SIZE_MAX then
           (\<exists>r. substr b m v offset len = Inr (r, v) \<and> ctor_copy b m v offset len = Inr (r, v) \<and>
                 m_Length r = SIZE_MAX \<and> termination_of r = SelfTerminated)
         else
           (\<exists>r. ctor_copy b m v offset len = Inr (r, v0) \<and>
                 substr Release m v offset len = Inr (r, v0) \<and>
                 (substr Debug m v offset len = Inr (r, v0) \<or>
                  substr Debug m v offset len = Inl AccessViolation \<and>
                  termination_of v = SelfTerminated \<and> min len (L - offset) = 0 \<and> offset = L) \<and>
                 m_Length r = min len (L - offset) \<and>
                 (termination_of r = SelfTerminated \<longrightarrow>
                    termination_of v = SelfTerminated \<and> offset + m_Length r = L) \<and>
                 (\<forall>q. termination_of r \<noteq> OwnedCopy q))"
proof -
  from assms(1) have wf: "wf_view m v" by (rule produced_wf)
  show ?thesis
  proof (cases "m_Length v = SIZE_MAX \<and> len = SIZE_MAX")
    case True
    with length_view_resolved [OF wf assms(2)] have t: "tstrlen m (m_Begin v) = Inr L"
      by simp
    from True substr_unknown_unbounded [OF wf _ t assms(3), of b]
      ctor_copy_unknown_unbounded [OF wf, of b offset]
    show ?thesis by (simp add: termination_of_def)
  next
    case False
    define n where "n = min len (L - offset)"
    have reach: "offset + n = L \<longleftrightarrow> n = L - offset"
      using eq_diff_eq [of n L offset] by (simp add: add.commute)
    have zero: "L - offset = 0 \<longleftrightarrow> offset = L"
      by auto
    note c = ctor_copy_resolved [OF wf assms(2,3) False, of b, unfolded Let_def, folded n_def]
    note s = substr_resolved [OF wf assms(2,3) False, unfolded Let_def, folded n_def]
    show ?thesis
    proof (cases "n = 0")
      case True
      with c s [of Release] s [of Debug] zero show ?thesis
        unfolding if_not_P [OF False] n_def [symmetric]
        by (auto simp: ctor_default_def ctor_ptr_len_def termination_of_def)
    next
      case nz: False
      show ?thesis
      proof (cases "m_NullTerminatedPtr v = 1 \<and> n = L - offset")
        case True
        with nz c s [of Release] s [of Debug] reach show ?thesis
          unfolding if_not_P [OF False] n_def [symmetric]
          by (simp add: termination_of_def)
      next
        case short: False
        have "ctor_copy b m v offset len = Inr (ctor_ptr_len (m_Begin v + offset) n, v0)"
          using c nz by (simp only: if_not_P [OF short] if_False)
        moreover have "substr b' m v offset len = Inr (ctor_ptr_len (m_Begin v + offset) n, v0)" for b'
          using s [of b'] by (simp only: if_not_P [OF short])
        ultimately show ?thesis
          unfolding if_not_P [OF False] n_def [symmetric]
          by (simp add: ctor_ptr_len_def termination_of_def)
      qed
    qed
  qed
qed

section \<open>Concurrent calls of \<^verbatim>\<open>c_str()\<close>: the invariant\<close>

text \<open>
  Run on its own, a thread takes the steps of \<open>c_str\<close>: six steps from the entry give the
  result of the function.
\<close>

lemma run_thread_c_str:
  "(case c_str b nullChar a h v of
      Inl e \<Rightarrow> fst (run_thread 6 b nullChar a (AtEntry, v, h)) = Threw e
    | Inr (p, v1, h1) \<Rightarrow> run_thread 6 b nullChar a (AtEntry, v, h) = (Returned p, v1, h1))"
  by (auto simp: c_str_def Let_def eval_nat_numeral new_arr_def compare_exchange_strong_def
      delete_arr_def
      split: sum.splits prod.splits if_splits option.splits)







lemma private_AtDelete: "private_block (AtDelete p e) = Some p"
  by (simp add: private_block_def)







lemma thread_ok_live [simp]:
  "thread_ok nc L t (h\<lparr>live := l\<rparr>) l0 c = thread_ok nc L t h l0 c"
  by (cases c) (simp_all add: thread_ok_def)


























end
